theory Spec2Isabelle
  imports Main "HOL-Library.Multiset"
begin

section \<open>Retry policy (src/tools/retry_utils.py)\<close>

text \<open>
  The faults a wrapped remote call can raise, by the classes the retry policy tests with
  \<open>isinstance\<close>: \<open>httpx.ConnectError\<close>, \<open>httpx.TimeoutException\<close> (and its subclasses),
  \<open>httpx.HTTPStatusError\<close> with the status code of its response, any other
  \<open>httpx.HTTPError\<close>, and any other exception. The string is \<open>str(e)\<close>.
\<close>

datatype exc =
    ConnectError string
  | TimeoutException string
  | HTTPStatusError int string
  | OtherHTTPError string
  | OtherException string

fun exc_str :: "exc \<Rightarrow> string" where
  "exc_str (ConnectError m) = m"
| "exc_str (TimeoutException m) = m"
| "exc_str (HTTPStatusError sc m) = m"
| "exc_str (OtherHTTPError m) = m"
| "exc_str (OtherException m) = m"

text \<open>\<open>should_retry_http_error\<close>, lines 20-43.\<close>

fun should_retry_http_error :: "exc \<Rightarrow> bool" where
  "should_retry_http_error (ConnectError m) = True"
| "should_retry_http_error (TimeoutException m) = True"
| "should_retry_http_error (HTTPStatusError status_code m) =
     (if status_code \<ge> 500 \<or> status_code = 429 then True else False)"
| "should_retry_http_error e = False"

fun is_ConnectError :: "exc \<Rightarrow> bool" where
  "is_ConnectError (ConnectError m) = True"
| "is_ConnectError e = False"

fun is_TimeoutException :: "exc \<Rightarrow> bool" where
  "is_TimeoutException (TimeoutException m) = True"
| "is_TimeoutException e = False"

text \<open>
  The \<open>retry=\<close> argument of lines 73-76:
  \<open>retry_if_exception_type(ConnectError) | retry_if_exception_type(TimeoutException) |
  retry_if_exception(should_retry_http_error)\<close>.
\<close>

definition retry_condition :: "exc \<Rightarrow> bool" where
  "retry_condition e =
     (is_ConnectError e \<or> is_TimeoutException e \<or> should_retry_http_error e)"

text \<open>
  \<open>tenacity.wait_exponential(multiplier, min, max)\<close> with its default \<open>exp_base = 2\<close>:
  after attempt number \<open>n\<close> (counted from 1) the wait is
  \<open>max(max(0, min), min(multiplier * 2 ** (n - 1), max))\<close>.
\<close>

definition wait_exponential :: "int \<Rightarrow> int \<Rightarrow> int \<Rightarrow> nat \<Rightarrow> int" where
  "wait_exponential multiplier mn mx attempt_number =
     max (max 0 mn) (min (multiplier * 2 ^ (attempt_number - 1)) mx)"

text \<open>
  The loop of \<open>tenacity.retry\<close> as \<open>retry_api_call\<close> configures it (lines 63-83):
  \<open>stop_after_attempt(max_attempts)\<close>, the wait above called with
  \<open>multiplier=multiplier, min=initial_wait, max=max_wait\<close>, \<open>reraise=True\<close>.
  The wrapped operation is given by the outcome of each of its attempts (numbered from 1).
  The loop returns the final outcome, the number of attempts made and the sleeps taken,
  in order.
\<close>

function retrying ::
  "nat \<Rightarrow> int \<Rightarrow> int \<Rightarrow> int \<Rightarrow> (nat \<Rightarrow> exc + 'a) \<Rightarrow> nat \<Rightarrow> int list
     \<Rightarrow> (exc + 'a) \<times> nat \<times> int list" where
  "retrying max_attempts initial_wait max_wait multiplier operation attempt_number sleeps =
     (case operation attempt_number of
        Inr v \<Rightarrow> (Inr v, attempt_number, sleeps)
      | Inl e \<Rightarrow>
          if \<not> retry_condition e then (Inl e, attempt_number, sleeps)
          else if attempt_number \<ge> max_attempts then (Inl e, attempt_number, sleeps)
          else retrying max_attempts initial_wait max_wait multiplier operation
                 (attempt_number + 1)
                 (sleeps @ [wait_exponential multiplier initial_wait max_wait attempt_number]))"
  by pat_completeness auto
termination
  by (relation "measure (\<lambda>(ma, iw, mw, mu, operation, n, sl). ma - n)") auto

declare retrying.simps [simp del]

definition retry_api_call ::
  "nat \<Rightarrow> int \<Rightarrow> int \<Rightarrow> int \<Rightarrow> (nat \<Rightarrow> exc + 'a) \<Rightarrow> (exc + 'a) \<times> nat \<times> int list" where
  "retry_api_call max_attempts initial_wait max_wait multiplier operation =
     retrying max_attempts initial_wait max_wait multiplier operation 1 []"

text \<open>The defaults of \<open>retry_api_call\<close> (line 46).\<close>

definition retry_api_call_default :: "(nat \<Rightarrow> exc + 'a) \<Rightarrow> (exc + 'a) \<times> nat \<times> int list" where
  "retry_api_call_default operation = retry_api_call 3 1 10 2 operation"

section \<open>Python values\<close>

text \<open>
  The values that parameters and payloads hold (\<open>Dict[str, Any]\<close> of JSON data):
  \<open>None\<close>, booleans, integers, strings, lists, and dictionaries with string keys in
  insertion order.
\<close>

datatype pyval =
    PNone
  | PBool bool
  | PInt int
  | PStr string
  | PList "pyval list"
  | PDict "(string \<times> pyval) list"

type_synonym pydict = "(string \<times> pyval) list"

text \<open>\<open>d[k] = v\<close>: an existing key keeps its position, a new key goes last.\<close>

fun dict_set :: "string \<Rightarrow> pyval \<Rightarrow> pydict \<Rightarrow> pydict" where
  "dict_set k v [] = [(k, v)]"
| "dict_set k v ((k', v') # d) = (if k' = k then (k, v) # d else (k', v') # dict_set k v d)"

text \<open>\<open>d.get(k)\<close>, which is \<open>None\<close> for a missing key.\<close>

definition dict_get :: "pydict \<Rightarrow> string \<Rightarrow> pyval" where
  "dict_get d k = (case map_of d k of None \<Rightarrow> PNone | Some v \<Rightarrow> v)"

text \<open>Truth value of a value in a condition.\<close>

fun truthy :: "pyval \<Rightarrow> bool" where
  "truthy PNone = False"
| "truthy (PBool b) = b"
| "truthy (PInt i) = (i \<noteq> 0)"
| "truthy (PStr s) = (s \<noteq> [])"
| "truthy (PList xs) = (xs \<noteq> [])"
| "truthy (PDict d) = (d \<noteq> [])"

text \<open>
  \<open>a == b\<close>: booleans compare with integers by value, lists elementwise, dictionaries
  by their items whatever the order.
\<close>

fun py_eq :: "pyval \<Rightarrow> pyval \<Rightarrow> bool"
  and py_eq_list :: "pyval list \<Rightarrow> pyval list \<Rightarrow> bool"
  and py_eq_items :: "pydict \<Rightarrow> pydict \<Rightarrow> bool" where
  "py_eq PNone PNone = True"
| "py_eq (PBool a) (PBool b) = (a = b)"
| "py_eq (PBool a) (PInt j) = ((if a then 1 else 0) = j)"
| "py_eq (PInt i) (PBool b) = (i = (if b then 1 else 0))"
| "py_eq (PInt i) (PInt j) = (i = j)"
| "py_eq (PStr s) (PStr t) = (s = t)"
| "py_eq (PList xs) (PList ys) = py_eq_list xs ys"
| "py_eq (PDict a) (PDict b) = (length a = length b \<and> py_eq_items a b)"
| "py_eq x y = False"
| "py_eq_list [] ys = (ys = [])"
| "py_eq_list (x # xs) ys = (case ys of [] \<Rightarrow> False | y # ys' \<Rightarrow> py_eq x y \<and> py_eq_list xs ys')"
| "py_eq_items [] b = True"
| "py_eq_items ((k, v) # a) b =
     (case map_of b k of None \<Rightarrow> False | Some w \<Rightarrow> py_eq v w \<and> py_eq_items a b)"

text \<open>\<open>len(v)\<close>; \<open>None\<close> where Python raises \<open>TypeError\<close>.\<close>

fun py_len :: "pyval \<Rightarrow> nat option" where
  "py_len (PStr s) = Some (length s)"
| "py_len (PList xs) = Some (length xs)"
| "py_len (PDict d) = Some (length d)"
| "py_len v = None"

text \<open>
  \<open>v[i]\<close> for a non-negative integer \<open>i\<close>; \<open>None\<close> where Python raises (\<open>IndexError\<close>,
  \<open>KeyError\<close> on a dictionary, whose keys are strings, \<open>TypeError\<close> otherwise).
\<close>

fun py_item :: "pyval \<Rightarrow> nat \<Rightarrow> pyval option" where
  "py_item (PList xs) i = (if i < length xs then Some (xs ! i) else None)"
| "py_item (PStr s) i = (if i < length s then Some (PStr [s ! i]) else None)"
| "py_item v i = None"

text \<open>
  What the model takes from the Python run time and does not compute: \<open>str(v)\<close> of a
  value that is not a string, and the message of the exception raised when an operation
  or a validation rejects a value.
\<close>

record pyrt =
  py_str :: "pyval \<Rightarrow> string"
  err_msg :: "pyval \<Rightarrow> string"

text \<open>An f-string field \<open>{v}\<close>.\<close>

definition fmt :: "pyrt \<Rightarrow> pyval \<Rightarrow> string" where
  "fmt rt v = (case v of PStr s \<Rightarrow> s | _ \<Rightarrow> py_str rt v)"

definition sq :: string where
  "sq = [CHR 0x27]"

section \<open>Data model (src/models/schemas.py)\<close>

record PlanStep =
  step_number :: int
  action :: string
  tool :: string
  params :: pydict
  reasoning :: string

record ExecutionPlan =
  task :: string
  steps :: "PlanStep list"
  estimated_tools :: "string list"

record ToolResult =
  result_tool :: string
  success :: bool
  data :: "pydict option"
  error :: "string option"

text \<open>\<open>ExecutionResult\<close> without its wall-clock \<open>execution_time\<close>.\<close>

record ExecutionResult =
  plan :: ExecutionPlan
  results :: "ToolResult list"

section \<open>Wikipedia tool (src/tools/wikipedia_tool.py)\<close>

text \<open>
  The items built by the loop of lines 51-56, for \<open>i\<close> in \<open>range(n)\<close>; \<open>None\<close> when an
  index fails.
\<close>

definition search_item :: "pyval \<Rightarrow> pyval \<Rightarrow> pyval \<Rightarrow> nat \<Rightarrow> pyval option" where
  "search_item titles descriptions urls i =
     (case py_item titles i of None \<Rightarrow> None | Some t \<Rightarrow>
      (case py_item descriptions i of None \<Rightarrow> None | Some d \<Rightarrow>
       (case py_item urls i of None \<Rightarrow> None | Some u \<Rightarrow>
          Some (PDict [(''title'', t), (''description'', d), (''url'', u)]))))"

text \<open>Lines 44-56: the result list from the decoded body; \<open>None\<close> when an exception is raised.\<close>

definition search_results :: "pyval \<Rightarrow> pyval list option" where
  "search_results body =
     (case py_len body of None \<Rightarrow> None | Some n \<Rightarrow>
        if n \<ge> 4 then
          (case py_item body 1 of None \<Rightarrow> None | Some titles \<Rightarrow>
           (case py_item body 2 of None \<Rightarrow> None | Some descriptions \<Rightarrow>
            (case py_item body 3 of None \<Rightarrow> None | Some urls \<Rightarrow>
             (case py_len titles of None \<Rightarrow> None | Some m \<Rightarrow>
                those (map (search_item titles descriptions urls) [0..<m])))))
        else Some [])"

text \<open>
  \<open>WikipediaTool.search\<close>, lines 19-73. The argument \<open>response\<close> is what the one request of
  line 39 and the decoding of lines 40-42 give: an exception, or the decoded body.
  The request is made once; there is no retry around it.
\<close>

definition wikipedia_search :: "pyrt \<Rightarrow> exc + pyval \<Rightarrow> pyval \<Rightarrow> pyval \<Rightarrow> pyval" where
  "wikipedia_search rt response query limit =
     (case response of
        Inl e \<Rightarrow>
          (case e of
             OtherException m \<Rightarrow>
               PDict [(''success'', PBool False), (''error'', PStr (''Unexpected error: '' @ m))]
           | _ \<Rightarrow>
               PDict [(''success'', PBool False),
                      (''error'', PStr (''Wikipedia API error: '' @ exc_str e))])
      | Inr body \<Rightarrow>
          (case search_results body of
             None \<Rightarrow>
               PDict [(''success'', PBool False),
                      (''error'', PStr (''Unexpected error: '' @ err_msg rt body))]
           | Some found \<Rightarrow>
               PDict [(''success'', PBool True), (''query'', query), (''results'', PList found)]))"

section \<open>Weather tool (src/tools/weather_tool.py)\<close>

text \<open>
  \<open>WeatherTool._fetch_weather_data\<close>, lines 23-38: the request and its decoding under
  \<open>@retry_api_call(max_attempts=3)\<close>. The argument gives the outcome of the request at
  each attempt.
\<close>

definition fetch_weather_data :: "(nat \<Rightarrow> exc + pyval) \<Rightarrow> (exc + pyval) \<times> nat \<times> int list" where
  "fetch_weather_data responses = retry_api_call 3 1 10 2 responses"

section \<open>Executor (src/agents/executor.py)\<close>

text \<open>
  What \<open>await method(**filtered_params)\<close> gives: an exception with its \<open>str\<close>, or a value.
  An attribute of a tool object is a method, with the parameter names of its signature, or
  something \<open>inspect.signature\<close> rejects with the given message. A tool object maps
  attribute names to attributes (\<open>hasattr\<close>/\<open>getattr\<close>); the registry \<open>self.tools\<close> maps
  tool names to tool objects.
\<close>

datatype outcome = Raises string | Returns pyval

datatype attr = Method "string list" "pydict \<Rightarrow> outcome" | NotCallable string

type_synonym tool_obj = "string \<Rightarrow> attr option"

type_synonym registry = "string \<Rightarrow> tool_obj option"

text \<open>The handler of lines 282-291.\<close>

definition execution_error :: "string \<Rightarrow> string \<Rightarrow> ToolResult" where
  "execution_error tool_name cause =
     \<lparr>result_tool = tool_name, success = False, data = None,
      error = Some (''Execution error: '' @ cause)\<rparr>"

text \<open>
  Lines 246-280: the outcome built from the returned value. \<open>ToolResult\<close> validates its
  fields: \<open>data\<close> is a dictionary or \<open>None\<close>, \<open>error\<close> a string or \<open>None\<close>; a rejected
  value raises inside the \<open>try\<close> and ends in the handler.
\<close>

definition normalize_result :: "pyrt \<Rightarrow> string \<Rightarrow> pyval \<Rightarrow> ToolResult" where
  "normalize_result rt tool_name result_data =
     (case result_data of
        PDict d \<Rightarrow>
          (case map_of d ''success'' of
             Some flag \<Rightarrow>
               if truthy flag then
                 \<lparr>result_tool = tool_name, success = True, data = Some d, error = None\<rparr>
               else
                 (case (case map_of d ''error'' of None \<Rightarrow> PStr ''Unknown error'' | Some m \<Rightarrow> m) of
                    PStr error_msg \<Rightarrow>
                      \<lparr>result_tool = tool_name, success = False, data = None,
                       error = Some error_msg\<rparr>
                  | PNone \<Rightarrow>
                      \<lparr>result_tool = tool_name, success = False, data = None, error = None\<rparr>
                  | v \<Rightarrow> execution_error tool_name (err_msg rt v))
           | None \<Rightarrow>
               \<lparr>result_tool = tool_name, success = True, data = Some d, error = None\<rparr>)
      | PNone \<Rightarrow> \<lparr>result_tool = tool_name, success = True, data = None, error = None\<rparr>
      | v \<Rightarrow> execution_error tool_name (err_msg rt v))"

text \<open>\<open>ExecutorAgent._execute_step\<close>, lines 188-291.\<close>

definition execute_step :: "pyrt \<Rightarrow> registry \<Rightarrow> PlanStep \<Rightarrow> ToolResult" where
  "execute_step rt tools st =
     (let tool_name = tool st; act = action st; ps = params st in
      case tools tool_name of
        None \<Rightarrow>
          \<lparr>result_tool = tool_name, success = False, data = None,
           error = Some (''Tool '' @ sq @ tool_name @ sq @ '' not found'')\<rparr>
      | Some tool_object \<Rightarrow>
          (case tool_object act of
             None \<Rightarrow>
               \<lparr>result_tool = tool_name, success = False, data = None,
                error = Some (''Action '' @ sq @ act @ sq @ '' not found in tool '' @ sq
                              @ tool_name @ sq)\<rparr>
           | Some (NotCallable cause) \<Rightarrow> execution_error tool_name cause
           | Some (Method valid_params method) \<Rightarrow>
               (let filtered_params = filter (\<lambda>(k, v). k \<in> set valid_params) ps in
                case method filtered_params of
                  Raises cause \<Rightarrow> execution_error tool_name cause
                | Returns result_data \<Rightarrow> normalize_result rt tool_name result_data)))"

text \<open>
  The registry of lines 30-37. What happens outside the program while one step runs is a
  \<open>world\<close>: the outcome of the one request of \<open>WikipediaTool.search\<close>, whether closing the
  Wikipedia client raises, and the attributes of every tool that are not modelled here.
\<close>

record world =
  wiki_search_response :: "exc + pyval"
  wiki_aclose :: "string option"
  other_attrs :: "string \<Rightarrow> string \<Rightarrow> attr option"

definition wikipedia_tool :: "pyrt \<Rightarrow> world \<Rightarrow> tool_obj" where
  "wikipedia_tool rt w name =
     (if name = ''search'' then
        Some (Method [''query'', ''limit'']
          (\<lambda>kw. case map_of kw ''query'' of
                   None \<Rightarrow> Raises (err_msg rt (PDict kw))
                 | Some query \<Rightarrow>
                     Returns (wikipedia_search rt (wiki_search_response w) query
                                (case map_of kw ''limit'' of None \<Rightarrow> PInt 5 | Some l \<Rightarrow> l))))
      else if name = ''close'' then
        Some (Method []
          (\<lambda>kw. case wiki_aclose w of None \<Rightarrow> Returns PNone | Some cause \<Rightarrow> Raises cause))
      else other_attrs w ''wikipedia'' name)"

definition the_tools :: "pyrt \<Rightarrow> world \<Rightarrow> registry" where
  "the_tools rt w name =
     (if name = ''wikipedia'' then Some (wikipedia_tool rt w)
      else if name \<in> {''github'', ''weather'', ''news'', ''countries'', ''crypto''}
      then Some (other_attrs w name)
      else None)"

text \<open>Lines 73-77.\<close>

definition depends_on_previous :: "PlanStep list \<Rightarrow> nat \<Rightarrow> bool" where
  "depends_on_previous ss i =
     (tool (ss ! i) = ''wikipedia'' \<and> action (ss ! i) = ''get_summary'' \<and>
      i > 0 \<and> tool (ss ! (i - 1)) = ''wikipedia'' \<and> action (ss ! (i - 1)) = ''search'')"

text \<open>The inner loop of lines 69-84; it returns the index reached and the batch.\<close>

function collect_batch ::
  "PlanStep list \<Rightarrow> nat \<Rightarrow> (nat \<times> PlanStep) list \<Rightarrow> nat \<times> (nat \<times> PlanStep) list" where
  "collect_batch ss i parallel_batch =
     (if i < length ss then
        (if depends_on_previous ss i \<and> length parallel_batch > 0 then (i, parallel_batch)
         else collect_batch ss (i + 1) (parallel_batch @ [(i, ss ! i)]))
      else (i, parallel_batch))"
  by pat_completeness auto
termination
  by (relation "measure (\<lambda>(ss, i, b). length ss - i)") auto

declare collect_batch.simps [simp del]

text \<open>
  Lines 147-158: the parameter injection before a dependent step is dispatched. It
  assigns to \<open>step.params\<close>; the result is the step as dispatched, or the exception that
  leaves \<open>execute_plan\<close>.
\<close>

definition inject_title :: "pyrt \<Rightarrow> ToolResult list \<Rightarrow> PlanStep \<Rightarrow> exc + PlanStep" where
  "inject_title rt rs st =
     (if tool st = ''wikipedia'' \<and> action st = ''get_summary'' \<and> length rs > 0 \<and>
         result_tool (last rs) = ''wikipedia'' \<and> success (last rs) \<and>
         (case data (last rs) of None \<Rightarrow> False | Some d \<Rightarrow> d \<noteq> [])
      then
        (case data (last rs) of
           None \<Rightarrow> Inr st
         | Some prev_result \<Rightarrow>
             if map_of (params st) ''title'' = None \<or>
                py_eq (dict_get (params st) ''title'') (dict_get prev_result ''query'')
             then
               (if truthy (dict_get prev_result ''results'') then
                  (case py_len (dict_get prev_result ''results'') of
                     None \<Rightarrow> Inl (OtherException (err_msg rt (dict_get prev_result ''results'')))
                   | Some n \<Rightarrow>
                       if n > 0 then
                         (case py_item (dict_get prev_result ''results'') 0 of
                            None \<Rightarrow>
                              Inl (OtherException (err_msg rt (dict_get prev_result ''results'')))
                          | Some (PDict first) \<Rightarrow>
                              (case map_of first ''title'' of
                                 None \<Rightarrow> Inl (OtherException (err_msg rt (PDict first)))
                               | Some extracted_title \<Rightarrow>
                                   Inr (st\<lparr>params := dict_set ''title'' extracted_title (params st)\<rparr>))
                          | Some v \<Rightarrow> Inl (OtherException (err_msg rt v)))
                       else Inr st)
                else Inr st)
             else Inr st)
      else Inr st)"

text \<open>
  \<open>ExecutorAgent.execute_plan\<close>, the loop of lines 63-171, from index \<open>i\<close> with the
  results so far. \<open>tools k\<close> is the registry as it behaves while step \<open>k\<close> runs. A batch is
  run by \<open>asyncio.gather\<close>; \<open>gather\<close> stands for the order in which the pairs of index
  and outcome come back, and line 129 sorts them by index. The steps are returned too,
  since line 155 writes into a step of the plan.
\<close>

function run_plan ::
  "pyrt \<Rightarrow> ((nat \<times> ToolResult) list \<Rightarrow> (nat \<times> ToolResult) list) \<Rightarrow> (nat \<Rightarrow> registry)
     \<Rightarrow> PlanStep list \<Rightarrow> nat \<Rightarrow> ToolResult list \<Rightarrow> exc + PlanStep list \<times> ToolResult list" where
  "run_plan rt gather tools ss i rs =
     (if i < length ss then
        (case collect_batch ss i [] of
           (j, parallel_batch) \<Rightarrow>
             (let rs1 =
                (if parallel_batch \<noteq> [] then
                   rs @ map snd (sort_key fst (gather
                          (map (\<lambda>(idx, st). (idx, execute_step rt (tools idx) st)) parallel_batch)))
                 else rs)
              in if j < length ss then
                   (case inject_title rt rs1 (ss ! j) of
                      Inl e \<Rightarrow> Inl e
                    | Inr st \<Rightarrow>
                        run_plan rt gather tools (ss[j := st]) (j + 1)
                          (rs1 @ [execute_step rt (tools j) st]))
                 else Inr (ss, rs1)))
      else Inr (ss, rs))"
  by pat_completeness auto
termination
proof (relation "measure (\<lambda>(rt, gather, tools, ss, i, rs). length ss - i)", goal_cases)
  case 1
  show ?case by simp
next
  case (2 rt gather tools ss i rs j parallel_batch rs1 st)
  have reach: "i0 \<le> fst (collect_batch ss0 i0 b0)" for ss0 i0 b0
  proof (induction ss0 i0 b0 rule: collect_batch.induct)
    case (1 ss i parallel_batch)
    then show ?case
      by (subst collect_batch.simps) auto
  qed
  from reach [of i ss "[]"] 2(2) have "i \<le> j"
    by (metis fst_conv)
  with 2(4) show ?case by simp
qed

declare run_plan.simps [simp del]

definition execute_plan ::
  "pyrt \<Rightarrow> ((nat \<times> ToolResult) list \<Rightarrow> (nat \<times> ToolResult) list) \<Rightarrow> (nat \<Rightarrow> registry)
     \<Rightarrow> ExecutionPlan \<Rightarrow> exc + ExecutionResult" where
  "execute_plan rt gather tools p =
     (case run_plan rt gather tools (steps p) 0 [] of
        Inl e \<Rightarrow> Inl e
      | Inr (ss, rs) \<Rightarrow> Inr \<lparr>plan = p\<lparr>steps := ss\<rparr>, results = rs\<rparr>)"

text \<open>
  The reference the scheduler is compared with: the steps dispatched one at a time in
  plan order, a dependent step after the injection from the results before it.
\<close>

function run_in_order ::
  "pyrt \<Rightarrow> (nat \<Rightarrow> registry) \<Rightarrow> PlanStep list \<Rightarrow> nat \<Rightarrow> ToolResult list
     \<Rightarrow> exc + PlanStep list \<times> ToolResult list" where
  "run_in_order rt tools ss i rs =
     (if i < length ss then
        (if depends_on_previous ss i then
           (case inject_title rt rs (ss ! i) of
              Inl e \<Rightarrow> Inl e
            | Inr st \<Rightarrow>
                run_in_order rt tools (ss[i := st]) (i + 1) (rs @ [execute_step rt (tools i) st]))
         else run_in_order rt tools ss (i + 1) (rs @ [execute_step rt (tools i) (ss ! i)]))
      else Inr (ss, rs))"
  by pat_completeness auto
termination
  by (relation "measure (\<lambda>(rt, tools, ss, i, rs). length ss - i)") auto

declare run_in_order.simps [simp del]

text \<open>
  The injection in the words of the specification, with the guard of line 153 on the
  result list: when the outcome before the dependent step succeeded with a payload and the
  step's \<open>title\<close> is absent or equal to the payload's \<open>query\<close>, the \<open>title\<close> becomes the title
  of the first item of the payload's \<open>results\<close>, if there is a first item.
\<close>

definition first_title :: "pydict \<Rightarrow> pyval option" where
  "first_title d =
     (case map_of d ''results'' of
        Some (PList (PDict first # rest)) \<Rightarrow> map_of first ''title''
      | _ \<Rightarrow> None)"

definition injected_step :: "ToolResult \<Rightarrow> PlanStep \<Rightarrow> PlanStep" where
  "injected_step prev st =
     (case data prev of
        None \<Rightarrow> st
      | Some d \<Rightarrow>
          if success prev \<and> d \<noteq> [] \<and>
             (map_of (params st) ''title'' = None \<or>
              py_eq (dict_get (params st) ''title'') (dict_get d ''query''))
          then (case first_title d of
                  None \<Rightarrow> st
                | Some t \<Rightarrow> st\<lparr>params := dict_set ''title'' t (params st)\<rparr>)
          else st)"

section \<open>Verifier (src/agents/verifier.py)\<close>

text \<open>\<open>needle in haystack\<close> on strings.\<close>

fun py_startswith :: "string \<Rightarrow> string \<Rightarrow> bool" where
  "py_startswith [] s = True"
| "py_startswith (c # p) [] = False"
| "py_startswith (c # p) (d # s) = (c = d \<and> py_startswith p s)"

fun py_contains :: "string \<Rightarrow> string \<Rightarrow> bool" where
  "py_contains needle [] = (needle = [])"
| "py_contains needle (c # s) = (py_startswith needle (c # s) \<or> py_contains needle s)"

text \<open>
  \<open>VerifierAgent._generate_context_label\<close>, lines 268-303. \<open>len\<close> of the GitHub query and
  the concatenation of its slice with a string raise for values that are not strings.
\<close>

definition generate_context_label :: "pyrt \<Rightarrow> string \<Rightarrow> pydict \<Rightarrow> exc + string option" where
  "generate_context_label rt tool_name d =
     (if tool_name = ''weather'' \<and> map_of d ''city'' \<noteq> None then
        Inr (Some (''Weather for '' @ fmt rt (dict_get d ''city'')))
      else if tool_name = ''github'' \<and> map_of d ''query'' \<noteq> None then
        (case py_len (dict_get d ''query'') of
           None \<Rightarrow> Inl (OtherException (err_msg rt (dict_get d ''query'')))
         | Some n \<Rightarrow>
             if n > 50 then
               (case dict_get d ''query'' of
                  PStr query \<Rightarrow> Inr (Some (''GitHub search: '' @ take 47 query @ ''...''))
                | v \<Rightarrow> Inl (OtherException (err_msg rt v)))
             else Inr (Some (''GitHub search: '' @ fmt rt (dict_get d ''query''))))
      else if tool_name = ''news'' \<and> map_of d ''query'' \<noteq> None then
        Inr (Some (''News about '' @ fmt rt (dict_get d ''query'')))
      else if tool_name = ''wikipedia'' then
        (if map_of d ''title'' \<noteq> None then
           Inr (Some (''Wikipedia: '' @ fmt rt (dict_get d ''title'')))
         else if map_of d ''query'' \<noteq> None then
           Inr (Some (''Wikipedia search: '' @ fmt rt (dict_get d ''query'')))
         else Inr None)
      else if tool_name = ''crypto'' \<and> map_of d ''coin'' \<noteq> None then
        Inr (Some (''Crypto: '' @ fmt rt (dict_get d ''coin'')))
      else if tool_name = ''countries'' then
        (if map_of d ''name'' \<noteq> None then
           Inr (Some (''Country: '' @ fmt rt (dict_get d ''name'')))
         else if map_of d ''region'' \<noteq> None then
           Inr (Some (''Region: '' @ fmt rt (dict_get d ''region'')))
         else Inr None)
      else Inr None)"

text \<open>
  Lines 63-65 and 75-77: the label, when there is one and it is not empty, is stored under
  the key \<open>_context\<close>.
\<close>

definition with_context :: "pyrt \<Rightarrow> string \<Rightarrow> pydict \<Rightarrow> exc + pydict" where
  "with_context rt tool_name d =
     (case generate_context_label rt tool_name d of
        Inl e \<Rightarrow> Inl e
      | Inr None \<Rightarrow> Inr d
      | Inr (Some context_label) \<Rightarrow>
          if context_label \<noteq> [] then Inr (dict_set ''_context'' (PStr context_label) d)
          else Inr d)"

text \<open>Lines 70-81: one payload, already labelled, stored under its tool's key.\<close>

definition store_result :: "pyrt \<Rightarrow> pydict \<Rightarrow> string \<Rightarrow> pydict \<Rightarrow> exc + pydict" where
  "store_result rt collected_data tool_name result_with_context =
     (case map_of collected_data tool_name of
        None \<Rightarrow> Inr (dict_set tool_name (PDict result_with_context) collected_data)
      | Some (PList entries) \<Rightarrow>
          Inr (dict_set tool_name (PList (entries @ [PDict result_with_context])) collected_data)
      | Some (PDict existing) \<Rightarrow>
          (case with_context rt tool_name existing of
             Inl e \<Rightarrow> Inl e
           | Inr existing' \<Rightarrow>
               Inr (dict_set tool_name (PList [PDict existing', PDict result_with_context])
                      collected_data))
      | Some v \<Rightarrow> Inr (dict_set tool_name (PList [v, PDict result_with_context]) collected_data))"

text \<open>\<open>VerifierAgent._extract_sources\<close>, lines 305-316.\<close>

fun extract_sources :: "pyval \<Rightarrow> string list \<Rightarrow> string list"
  and extract_sources_items :: "pydict \<Rightarrow> string list \<Rightarrow> string list"
  and extract_sources_list :: "pyval list \<Rightarrow> string list \<Rightarrow> string list" where
  "extract_sources (PDict d) sources = extract_sources_items d sources"
| "extract_sources (PList xs) sources = extract_sources_list xs sources"
| "extract_sources v sources = sources"
| "extract_sources_items [] sources = sources"
| "extract_sources_items ((key, PStr s) # d) sources =
     extract_sources_items d
       (if key = ''url'' \<or> key = ''html_url'' then
          (if s \<notin> set sources then sources @ [s] else sources)
        else sources)"
| "extract_sources_items ((key, v) # d) sources =
     extract_sources_items d (extract_sources v sources)"
| "extract_sources_list [] sources = sources"
| "extract_sources_list (x # xs) sources = extract_sources_list xs (extract_sources x sources)"

text \<open>
  The state of the loop of lines 55-93: \<open>collected_data\<close>, \<open>sources\<close>, \<open>suggestions\<close> and
  \<open>correction_notes\<close>.
\<close>

record collected =
  collected_data :: pydict
  sources :: "string list"
  suggestions :: "pyval list"
  correction_notes :: "pyval list"

fun collect_loop :: "pyrt \<Rightarrow> ToolResult list \<Rightarrow> collected \<Rightarrow> exc + collected" where
  "collect_loop rt [] c = Inr c"
| "collect_loop rt (r # successful_steps) c =
     (case data r of
        None \<Rightarrow> collect_loop rt successful_steps c
      | Some d \<Rightarrow>
          if d = [] then collect_loop rt successful_steps c
          else
            (case with_context rt (result_tool r) d of
               Inl e \<Rightarrow> Inl e
             | Inr result_with_context \<Rightarrow>
                 (case store_result rt (collected_data c) (result_tool r) result_with_context of
                    Inl e \<Rightarrow> Inl e
                  | Inr collected_data' \<Rightarrow>
                      collect_loop rt successful_steps
                        \<lparr>collected_data = collected_data',
                         sources =
                           (if py_contains ''url'' (py_str rt (PDict d))
                            then extract_sources (PDict d) (sources c) else sources c),
                         suggestions =
                           (case map_of d ''suggestion'' of
                              None \<Rightarrow> suggestions c | Some v \<Rightarrow> suggestions c @ [v]),
                         correction_notes =
                           (case map_of d ''correction_note'' of
                              None \<Rightarrow> correction_notes c
                            | Some v \<Rightarrow> correction_notes c @ [v])\<rparr>)))"

text \<open>
  \<open>VerifierAgent.verify_and_format\<close>, lines 21-148, without the summary and the notes text:
  the by-tool map \<open>details\<close>, the \<open>sources\<close> and the verdict, or the exception that leaves
  it.
\<close>

record FinalResult =
  details :: pydict
  final_sources :: "string list"
  verified :: bool

definition verify_and_format :: "pyrt \<Rightarrow> ExecutionResult \<Rightarrow> exc + FinalResult" where
  "verify_and_format rt execution_result =
     (let failed_steps = filter (\<lambda>r. \<not> success r) (results execution_result);
          successful_steps = filter (\<lambda>r. success r) (results execution_result)
      in case collect_loop rt successful_steps
                \<lparr>collected_data = [], sources = [], suggestions = [], correction_notes = []\<rparr> of
           Inl e \<Rightarrow> Inl e
         | Inr c \<Rightarrow>
             Inr \<lparr>details = collected_data c, final_sources = sources c,
                  verified = (length failed_steps = 0)\<rparr>)"

text \<open>
  The citation list as the specification words it: the string values of the fields named
  \<open>url\<close> or \<open>html_url\<close>, in the order a scan through nested dictionaries and lists meets
  them, each kept at its first occurrence only.
\<close>

fun url_values :: "pyval \<Rightarrow> string list"
  and url_values_items :: "pydict \<Rightarrow> string list"
  and url_values_list :: "pyval list \<Rightarrow> string list" where
  "url_values (PDict d) = url_values_items d"
| "url_values (PList xs) = url_values_list xs"
| "url_values v = []"
| "url_values_items [] = []"
| "url_values_items ((key, PStr s) # d) =
     (if key = ''url'' \<or> key = ''html_url'' then [s] else []) @ url_values_items d"
| "url_values_items ((key, v) # d) = url_values v @ url_values_items d"
| "url_values_list [] = []"
| "url_values_list (x # xs) = url_values x @ url_values_list xs"

definition first_occurrences :: "'a list \<Rightarrow> 'a list" where
  "first_occurrences xs = rev (remdups (rev xs))"

definition payload_urls :: "ToolResult \<Rightarrow> string list" where
  "payload_urls r = (case data r of None \<Rightarrow> [] | Some d \<Rightarrow> url_values (PDict d))"

text \<open>The payloads that the successful outcomes of one tool carry, in order.\<close>

definition payloads_of :: "string \<Rightarrow> ToolResult list \<Rightarrow> pydict list" where
  "payloads_of tool_name rs =
     concat (map (\<lambda>r. case data r of None \<Rightarrow> [] | Some d \<Rightarrow> if d = [] then [] else [d])
               (filter (\<lambda>r. success r \<and> result_tool r = tool_name) rs))"

text \<open>
  The by-tool entry in the words of the specification: nothing for a tool without a
  payload, the single labelled payload for one, the list of the labelled payloads in
  order for two or more. \<open>tagged\<close> is a payload with its context label attached.
\<close>

definition tagged :: "pyrt \<Rightarrow> string \<Rightarrow> pydict \<Rightarrow> pydict" where
  "tagged rt tool_name d = (case with_context rt tool_name d of Inl e \<Rightarrow> d | Inr d' \<Rightarrow> d')"

definition grouped :: "pyrt \<Rightarrow> string \<Rightarrow> pydict list \<Rightarrow> pyval option" where
  "grouped rt tool_name ds =
     (case ds of
        [] \<Rightarrow> None
      | [d] \<Rightarrow> Some (PDict (tagged rt tool_name d))
      | _ \<Rightarrow> Some (PList (map (\<lambda>d. PDict (tagged rt tool_name d)) ds)))"

section \<open>Concrete inputs\<close>

text \<open>
  A run time, worlds and plans to evaluate the model on. In \<open>nepal_world\<close> the Wikipedia
  search answers with one article; in \<open>empty_world\<close> it answers with no article; in
  \<open>offline_world\<close> the connection fails. \<open>get_summary\<close> answers with the title it is
  asked for.
\<close>

definition demo_rt :: pyrt where
  "demo_rt = \<lparr>py_str = (\<lambda>v. ''{url}''), err_msg = (\<lambda>v. ''error'')\<rparr>"

definition demo_attrs :: "string \<Rightarrow> string \<Rightarrow> attr option" where
  "demo_attrs tool_name name =
     (if tool_name = ''wikipedia'' \<and> name = ''get_summary'' then
        Some (Method [''title'']
          (\<lambda>kw. case map_of kw ''title'' of
                   None \<Rightarrow> Raises ''missing 1 required positional argument''
                 | Some t \<Rightarrow>
                     Returns (PDict [(''success'', PBool True), (''title'', t),
                                     (''url'', PStr ''https://en.wikipedia.org/wiki/Nepal'')])))
      else None)"

definition nepal_world :: world where
  "nepal_world =
     \<lparr>wiki_search_response =
        Inr (PList [PStr ''Nepal'', PList [PStr ''Nepal (country)''], PList [PStr ''''],
                    PList [PStr ''https://en.wikipedia.org/wiki/Nepal'']]),
      wiki_aclose = None, other_attrs = demo_attrs\<rparr>"

definition empty_world :: world where
  "empty_world =
     \<lparr>wiki_search_response = Inr (PList [PStr ''zzz'', PList [], PList [], PList []]),
      wiki_aclose = None, other_attrs = demo_attrs\<rparr>"

definition offline_world :: world where
  "offline_world =
     \<lparr>wiki_search_response = Inl (ConnectError ''All connection attempts failed''),
      wiki_aclose = None, other_attrs = demo_attrs\<rparr>"

definition search_step :: "string \<Rightarrow> PlanStep" where
  "search_step q =
     \<lparr>step_number = 1, action = ''search'', tool = ''wikipedia'',
      params = [(''query'', PStr q)], reasoning = ''find the article''\<rparr>"

definition summary_step :: "pydict \<Rightarrow> PlanStep" where
  "summary_step ps =
     \<lparr>step_number = 2, action = ''get_summary'', tool = ''wikipedia'',
      params = ps, reasoning = ''read the article''\<rparr>"

definition unknown_step :: PlanStep where
  "unknown_step =
     \<lparr>step_number = 1, action = ''lookup'', tool = ''doesnotexist'',
      params = [], reasoning = ''no such tool''\<rparr>"

definition close_step :: PlanStep where
  "close_step =
     \<lparr>step_number = 1, action = ''close'', tool = ''wikipedia'',
      params = [], reasoning = ''close the client''\<rparr>"

definition demo_plan :: "PlanStep list \<Rightarrow> ExecutionPlan" where
  "demo_plan ss = \<lparr>task = ''demo'', steps = ss, estimated_tools = [''wikipedia'']\<rparr>"

text \<open>Outcomes to evaluate the verifier on.\<close>

definition weather_outcome :: "string \<Rightarrow> ToolResult" where
  "weather_outcome city =
     \<lparr>result_tool = ''weather'', success = True,
      data = Some [(''success'', PBool True), (''city'', PStr city),
                   (''temperature'', PStr ''20C'')],
      error = None\<rparr>"

definition github_outcome :: ToolResult where
  "github_outcome =
     \<lparr>result_tool = ''github'', success = True,
      data = Some [(''success'', PBool True), (''query'', PStr ''ml''),
        (''repositories'', PList [
           PDict [(''name'', PStr ''a/b''), (''url'', PStr ''https://github.com/a/b'')],
           PDict [(''name'', PStr ''c/d''), (''url'', PStr ''https://github.com/c/d''),
                  (''owner'', PDict [(''html_url'', PStr ''https://github.com/c'')])],
           PDict [(''name'', PStr ''a/b''), (''url'', PStr ''https://github.com/a/b'')]])],
      error = None\<rparr>"

definition failed_outcome :: ToolResult where
  "failed_outcome =
     \<lparr>result_tool = ''news'', success = False, data = None,
      error = Some ''News API error''\<rparr>"

definition labelled_outcome :: ToolResult where
  "labelled_outcome =
     \<lparr>result_tool = ''weather'', success = True,
      data = Some [(''city'', PStr ''Paris''), (''_context'', PStr ''station 7'')],
      error = None\<rparr>"

definition demo_result :: "ToolResult list \<Rightarrow> ExecutionResult" where
  "demo_result rs = \<lparr>plan = demo_plan [], results = rs\<rparr>"

text \<open>
  In \<open>array_world\<close> the trending request of the crypto tool answers with a JSON array,
  which \<open>CryptoTool._fetch_trending_data\<close> returns as it is
  (src/tools/crypto_tool.py, line 108).
\<close>

definition array_world :: world where
  "array_world =
     \<lparr>wiki_search_response = Inr (PList []), wiki_aclose = None,
      other_attrs =
        (\<lambda>tool_name name.
           if tool_name = ''crypto'' \<and> name = ''_fetch_trending_data''
           then Some (Method [] (\<lambda>kw. Returns (PList [])))
           else None)\<rparr>"

definition trending_step :: PlanStep where
  "trending_step =
     \<lparr>step_number = 1, action = ''_fetch_trending_data'', tool = ''crypto'',
      params = [], reasoning = ''trending coins''\<rparr>"

section \<open>Properties of the retry policy\<close>

lemma retry_condition_cases:
  "retry_condition e =
     (case e of
        ConnectError m \<Rightarrow> True
      | TimeoutException m \<Rightarrow> True
      | HTTPStatusError sc m \<Rightarrow> sc \<ge> 500 \<or> sc = 429
      | OtherHTTPError m \<Rightarrow> False
      | OtherException m \<Rightarrow> False)"
  by (cases e) (simp_all add: retry_condition_def)

lemma retrying_prefix:
  "n \<le> k \<Longrightarrow> k \<le> ma \<or> k = n \<Longrightarrow>
   \<forall>j. n \<le> j \<and> j < k \<longrightarrow> (\<exists>e'. operation j = Inl e' \<and> retry_condition e') \<Longrightarrow>
     retrying ma iw mw mu operation n sl =
       retrying ma iw mw mu operation k (sl @ map (wait_exponential mu iw mw) [n..<k])"
proof (induction "k - n" arbitrary: n sl)
  case 0
  then show ?case by simp
next
  case (Suc d)
  then have lt: "n < k" by simp
  with Suc.prems(2) have kma: "k \<le> ma" by simp
  from Suc.prems(3) lt obtain e' where e': "operation n = Inl e'" "retry_condition e'"
    by auto
  from lt kma have "n < ma" by simp
  with e' have step: "retrying ma iw mw mu operation n sl =
      retrying ma iw mw mu operation (n + 1) (sl @ [wait_exponential mu iw mw n])"
    by (simp add: retrying.simps [of ma iw mw mu operation n sl])
  have d: "d = k - (n + 1)" using Suc.hyps(2) by simp
  have le: "n + 1 \<le> k" using lt by simp
  have or: "k \<le> ma \<or> k = n + 1" using kma by simp
  have pre: "\<forall>j. n + 1 \<le> j \<and> j < k \<longrightarrow> (\<exists>e'. operation j = Inl e' \<and> retry_condition e')"
    using Suc.prems(3) by simp
  from Suc.hyps(1) [OF d le or pre, of "sl @ [wait_exponential mu iw mw n]"] step lt
  show ?case by (simp add: upt_conv_Cons)
qed

lemma retrying_attempts: "n \<le> fst (snd (retrying ma iw mw mu operation n sl))"
proof (induction ma iw mw mu operation n sl rule: retrying.induct)
  case (1 ma iw mw mu operation n sl)
  show ?case
  proof (cases "operation n")
    case (Inr v)
    then show ?thesis by (simp add: retrying.simps [of ma iw mw mu operation n sl])
  next
    case (Inl e)
    show ?thesis
    proof (cases "retry_condition e \<and> n < ma")
      case False
      with Inl show ?thesis
        by (auto simp: retrying.simps [of ma iw mw mu operation n sl])
    next
      case True
      with Inl "1.IH" [of e] have "n + 1 \<le> fst (snd (retrying ma iw mw mu operation (n + 1)
          (sl @ [wait_exponential mu iw mw n])))" by simp
      with Inl True show ?thesis
        by (simp add: retrying.simps [of ma iw mw mu operation n sl])
    qed
  qed
qed

lemma retrying_sleeps:
  "\<exists>rest. snd (snd (retrying ma iw mw mu operation n sl)) = sl @ rest"
proof (induction ma iw mw mu operation n sl rule: retrying.induct)
  case (1 ma iw mw mu operation n sl)
  show ?case
  proof (cases "operation n")
    case (Inr v)
    then show ?thesis by (simp add: retrying.simps [of ma iw mw mu operation n sl])
  next
    case (Inl e)
    show ?thesis
    proof (cases "retry_condition e \<and> n < ma")
      case False
      with Inl show ?thesis
        by (auto simp: retrying.simps [of ma iw mw mu operation n sl])
    next
      case True
      with Inl "1.IH" [of e] obtain rest where
        "snd (snd (retrying ma iw mw mu operation (n + 1)
            (sl @ [wait_exponential mu iw mw n]))) =
         (sl @ [wait_exponential mu iw mw n]) @ rest"
        by auto
      with Inl True show ?thesis
        by (simp add: retrying.simps [of ma iw mw mu operation n sl])
    qed
  qed
qed

text \<open>
  C3. A fault is retried if and only if it is a connect or timeout fault or a status error
  with status at least 500 or equal to 429. For the decorated call, after retryable
  faults at the attempts before attempt \<open>k\<close>: any other fault at attempt \<open>k\<close> is the
  result, after exactly \<open>k\<close> attempts and the \<open>k - 1\<close> sleeps taken so far; a retryable
  fault at attempt \<open>k\<close> with attempts left leads to a further attempt, after the sleep
  that follows attempt \<open>k\<close>; a retryable fault at the last attempt is the result; a value returned at attempt
  \<open>k\<close> is the result.
\<close>

theorem retry_iff_transient:
  "(retry_condition e \<longleftrightarrow>
      (case e of
         ConnectError m \<Rightarrow> True
       | TimeoutException m \<Rightarrow> True
       | HTTPStatusError sc m \<Rightarrow> sc \<ge> 500 \<or> sc = 429
       | OtherHTTPError m \<Rightarrow> False
       | OtherException m \<Rightarrow> False)) \<and>
   (1 \<le> k \<and> (k \<le> ma \<or> k = 1) \<and>
    (\<forall>j. 1 \<le> j \<and> j < k \<longrightarrow> (\<exists>e'. operation j = Inl e' \<and> retry_condition e')) \<longrightarrow>
      (operation k = Inl e \<and> \<not> retry_condition e \<longrightarrow>
         retry_api_call ma iw mw mu operation =
           (Inl e, k, map (wait_exponential mu iw mw) [1..<k])) \<and>
      (operation k = Inl e \<and> retry_condition e \<and> k < ma \<longrightarrow>
         k < fst (snd (retry_api_call ma iw mw mu operation)) \<and>
         (\<exists>rest. snd (snd (retry_api_call ma iw mw mu operation)) =
            map (wait_exponential mu iw mw) [1..<k + 1] @ rest)) \<and>
      (operation k = Inl e \<and> retry_condition e \<and> ma \<le> k \<longrightarrow>
         retry_api_call ma iw mw mu operation =
           (Inl e, k, map (wait_exponential mu iw mw) [1..<k])) \<and>
      (operation k = Inr v \<longrightarrow>
         retry_api_call ma iw mw mu operation =
           (Inr v, k, map (wait_exponential mu iw mw) [1..<k])))"
proof (intro conjI impI)
  show "retry_condition e \<longleftrightarrow>
      (case e of
         ConnectError m \<Rightarrow> True
       | TimeoutException m \<Rightarrow> True
       | HTTPStatusError sc m \<Rightarrow> sc \<ge> 500 \<or> sc = 429
       | OtherHTTPError m \<Rightarrow> False
       | OtherException m \<Rightarrow> False)"
    by (rule retry_condition_cases)
next
  assume pre: "1 \<le> k \<and> (k \<le> ma \<or> k = 1) \<and>
    (\<forall>j. 1 \<le> j \<and> j < k \<longrightarrow> (\<exists>e'. operation j = Inl e' \<and> retry_condition e'))"
  define sl where "sl = map (wait_exponential mu iw mw) [1..<k]"
  from pre have reach: "retry_api_call ma iw mw mu operation =
      retrying ma iw mw mu operation k sl"
    using retrying_prefix [of 1 k ma operation iw mw mu "[]"]
    by (simp add: retry_api_call_def sl_def)
  note unf = retrying.simps [of ma iw mw mu operation k sl]
  from pre have snoc: "sl @ [wait_exponential mu iw mw k] =
      map (wait_exponential mu iw mw) [1..<k + 1]"
    by (simp add: sl_def)
  {
    assume "operation k = Inl e \<and> \<not> retry_condition e"
    then have "retry_api_call ma iw mw mu operation = (Inl e, k, sl)"
      by (simp add: reach unf)
    then show "retry_api_call ma iw mw mu operation =
        (Inl e, k, map (wait_exponential mu iw mw) [1..<k])"
      by (simp only: sl_def)
  next
    assume a: "operation k = Inl e \<and> retry_condition e \<and> k < ma"
    then have "retry_api_call ma iw mw mu operation =
        retrying ma iw mw mu operation (k + 1) (sl @ [wait_exponential mu iw mw k])"
      by (simp add: reach unf)
    then have next_attempt: "retry_api_call ma iw mw mu operation =
        retrying ma iw mw mu operation (k + 1)
          (map (wait_exponential mu iw mw) [1..<k + 1])"
      by (simp only: snoc)
    have "k + 1 \<le> fst (snd (retrying ma iw mw mu operation (k + 1)
          (map (wait_exponential mu iw mw) [1..<k + 1])))"
      by (rule retrying_attempts)
    then show "k < fst (snd (retry_api_call ma iw mw mu operation))"
      unfolding next_attempt by simp
    show "\<exists>rest. snd (snd (retry_api_call ma iw mw mu operation)) =
           map (wait_exponential mu iw mw) [1..<k + 1] @ rest"
      unfolding next_attempt by (rule retrying_sleeps)
  next
    assume "operation k = Inl e \<and> retry_condition e \<and> ma \<le> k"
    then have "retry_api_call ma iw mw mu operation = (Inl e, k, sl)"
      by (simp add: reach unf)
    then show "retry_api_call ma iw mw mu operation =
        (Inl e, k, map (wait_exponential mu iw mw) [1..<k])"
      by (simp only: sl_def)
  next
    assume "operation k = Inr v"
    then have "retry_api_call ma iw mw mu operation = (Inr v, k, sl)"
      by (simp add: reach unf)
    then show "retry_api_call ma iw mw mu operation =
        (Inr v, k, map (wait_exponential mu iw mw) [1..<k])"
      by (simp only: sl_def)
  }
qed


theorem retry_iff_transient_witness:
  "\<not> retry_condition (HTTPStatusError 404 ''Not Found'') \<and>
   retry_condition (HTTPStatusError 503 ''Service Unavailable'') \<and>
   retry_api_call 3 1 10 2 (\<lambda>n. Inl (HTTPStatusError 404 ''Not Found'') :: exc + nat) =
     (Inl (HTTPStatusError 404 ''Not Found''), 1, []) \<and>
   retry_api_call 3 1 10 2
     (\<lambda>n. if n < 2 then Inl (HTTPStatusError 503 ''Service Unavailable'')
          else Inl (HTTPStatusError 404 ''Not Found'') :: exc + nat) =
     (Inl (HTTPStatusError 404 ''Not Found''), 2, [2]) \<and>
   1 < fst (snd (retry_api_call 3 1 10 2
     (\<lambda>n. if n < 2 then Inl (HTTPStatusError 503 ''Service Unavailable'')
          else Inl (HTTPStatusError 404 ''Not Found'') :: exc + nat))) \<and>
   retry_api_call 3 1 10 2
     (\<lambda>n. if n < 3 then Inl (HTTPStatusError 503 ''Service Unavailable'') else Inr (7::nat)) =
     (Inr 7, 3, [2, 4]) \<and>
   retry_api_call 3 1 10 2 (\<lambda>n. Inl (HTTPStatusError 503 ''Service Unavailable'') :: exc + nat) =
     (Inl (HTTPStatusError 503 ''Service Unavailable''), 3, [2, 4])"
proof -
  let ?e4 = "HTTPStatusError 404 ''Not Found''"
  let ?e5 = "HTTPStatusError 503 ''Service Unavailable''"
  let ?op2 = "\<lambda>n::nat. if n < 2 then Inl ?e5 else Inl ?e4 :: exc + nat"
  let ?op3 = "\<lambda>n::nat. if n < 3 then Inl ?e5 else Inr (7::nat)"
  have c4: "\<not> retry_condition ?e4"
    using retry_iff_transient [where e = ?e4 and k = 1 and ma = 3
        and operation = "\<lambda>n. Inl ?e4 :: exc + nat" and iw = 1 and mw = 10 and mu = 2
        and v = 0, THEN conjunct1]
    by simp
  have c5: "retry_condition ?e5"
    using retry_iff_transient [where e = ?e5 and k = 1 and ma = 3
        and operation = "\<lambda>n. Inl ?e5 :: exc + nat" and iw = 1 and mw = 10 and mu = 2
        and v = 0, THEN conjunct1]
    by simp
  have a: "retry_api_call 3 1 10 2 (\<lambda>n. Inl ?e4 :: exc + nat) = (Inl ?e4, 1, [])"
    using retry_iff_transient [where e = ?e4 and k = 1 and ma = 3
        and operation = "\<lambda>n. Inl ?e4 :: exc + nat" and iw = 1 and mw = 10 and mu = 2] c4
    by simp
  have pre2: "\<forall>j::nat. 1 \<le> j \<and> j < 2 \<longrightarrow> (\<exists>e'. ?op2 j = Inl e' \<and> retry_condition e')"
    using c5 by simp
  have b: "retry_api_call 3 1 10 2 ?op2 = (Inl ?e4, 2, [2])"
    using retry_iff_transient [where e = ?e4 and k = 2 and ma = 3
        and operation = ?op2 and iw = 1 and mw = 10 and mu = 2] c4 pre2
    by (simp add: wait_exponential_def eval_nat_numeral)
  have p1: "(1::nat) \<le> 1 \<and> ((1::nat) \<le> 3 \<or> (1::nat) = 1) \<and>
      (\<forall>j::nat. 1 \<le> j \<and> j < 1 \<longrightarrow> (\<exists>e'. ?op2 j = Inl e' \<and> retry_condition e'))"
    by simp
  have h1: "?op2 1 = Inl ?e5 \<and> retry_condition ?e5 \<and> (1::nat) < 3"
    using c5 by simp
  have c: "1 < fst (snd (retry_api_call 3 1 10 2 ?op2))"
    by (rule retry_iff_transient [where e = ?e5 and k = 1 and ma = 3
        and operation = ?op2 and iw = 1 and mw = 10 and mu = 2, THEN conjunct2, THEN mp,
        OF p1, THEN conjunct2, THEN conjunct1, THEN mp, OF h1, THEN conjunct1])
  have pre3: "\<forall>j::nat. 1 \<le> j \<and> j < 3 \<longrightarrow> (\<exists>e'. ?op3 j = Inl e' \<and> retry_condition e')"
    using c5 by simp
  have d: "retry_api_call 3 1 10 2 ?op3 = (Inr 7, 3, [2, 4])"
    using retry_iff_transient [where e = ?e5 and k = 3 and ma = 3
        and operation = ?op3 and iw = 1 and mw = 10 and mu = 2 and v = 7] pre3
    by (simp add: wait_exponential_def eval_nat_numeral)
  have pre5: "\<forall>j::nat. 1 \<le> j \<and> j < 3 \<longrightarrow>
      (\<exists>e'. (Inl ?e5 :: exc + nat) = Inl e' \<and> retry_condition e')"
    using c5 by simp
  have e: "retry_api_call 3 1 10 2 (\<lambda>n. Inl ?e5 :: exc + nat) = (Inl ?e5, 3, [2, 4])"
    using retry_iff_transient [where e = ?e5 and k = 3 and ma = 3
        and operation = "\<lambda>n. Inl ?e5 :: exc + nat" and iw = 1 and mw = 10 and mu = 2] c5 pre5
    by (simp add: wait_exponential_def eval_nat_numeral)
  from c4 c5 a b c d e show ?thesis by blast
qed

text \<open>
  C4. With the defaults, an operation that fails twice with a retryable fault and then
  succeeds returns the success after 3 attempts and 2 sleeps; the sleeps are 2 and 4
  seconds (the multiplier scales the power of two, the initial wait is only a lower bound),
  not 1 and 2. An operation that fails at all three attempts ends with the fault it
  raised. The waits after attempts 1 to 4 would be 2, 4, 8 and 10 seconds.
\<close>

theorem default_backoff_delays:
  "retry_api_call_default
     (\<lambda>n. if n < 3 then Inl (ConnectError ''connection refused'') else Inr ''ok'')
   = (Inr ''ok'', 3, [2, 4]) \<and>
   retry_api_call_default (\<lambda>n. Inl (ConnectError ''connection refused'') :: exc + string)
   = (Inl (ConnectError ''connection refused''), 3, [2, 4]) \<and>
   map (wait_exponential 2 1 10) [1, 2, 3, 4] = [2, 4, 8, 10]"
  by (simp add: retry_api_call_default_def retry_api_call_def
      retrying.simps [of _ _ _ _ _ "Suc 0"] retrying.simps [of _ _ _ _ _ "Suc (Suc 0)"]
      retrying.simps [of _ _ _ _ _ "Suc (Suc (Suc 0))"]
      retry_condition_def wait_exponential_def)

section \<open>Properties of the scheduler\<close>

lemma filter_key_singleton:
  "distinct (map f zs) \<Longrightarrow> k \<in> set zs \<Longrightarrow> filter (\<lambda>x. f k = f x) zs = [k]"
proof (induction zs)
  case Nil
  then show ?case by simp
next
  case (Cons z zs)
  show ?case
  proof (cases "k = z")
    case True
    have "filter (\<lambda>x. f z = f x) zs = []"
      using Cons.prems(1) by (auto simp: filter_empty_conv)
    with True show ?thesis by simp
  next
    case False
    with Cons.prems have kin: "k \<in> set zs" by simp
    from Cons.prems(1) have "f z \<notin> f ` set zs" by simp
    with kin have "f k \<noteq> f z" by (metis imageI)
    with Cons.IH Cons.prems(1) kin show ?thesis by simp
  qed
qed

lemma sort_key_restores_order:
  assumes perm: "mset ys = mset xs"
    and sorted: "sorted (map f xs)"
    and dist: "distinct (map f xs)"
  shows "sort_key f ys = xs"
proof (rule properties_for_sort_key)
  show "mset xs = mset ys" using perm by simp
next
  fix k assume k: "k \<in> set xs"
  have "mset (map f ys) = mset (map f xs)" using perm by simp
  then have dist': "distinct (map f ys)"
    using dist by (metis mset_eq_imp_distinct_iff)
  have kin: "k \<in> set ys" using k perm by (metis mset_eq_setD)
  show "filter (\<lambda>x. f k = f x) xs = filter (\<lambda>x. f k = f x) ys"
    by (simp add: filter_key_singleton [OF dist k] filter_key_singleton [OF dist' kin])
next
  show "sorted (map f xs)" by (rule sorted)
qed

lemma collect_batch_spec:
  "i \<le> length ss \<Longrightarrow> collect_batch ss i b = (j, b') \<Longrightarrow>
     i \<le> j \<and> j \<le> length ss \<and> b' = b @ map (\<lambda>k. (k, ss ! k)) [i..<j] \<and>
     (\<forall>k. i < k \<and> k < j \<longrightarrow> \<not> depends_on_previous ss k) \<and>
     (b \<noteq> [] \<and> i < j \<longrightarrow> \<not> depends_on_previous ss i) \<and>
     (j < length ss \<longrightarrow> depends_on_previous ss j \<and> b' \<noteq> [])"
proof (induction ss i b arbitrary: j b' rule: collect_batch.induct)
  case (1 ss i parallel_batch)
  note unf = collect_batch.simps [of ss i parallel_batch]
  show ?case
  proof (cases "i < length ss")
    case False
    with "1.prems"(2) unf have "j = i" "b' = parallel_batch" by simp_all
    with False "1.prems"(1) show ?thesis by auto
  next
    case inb: True
    show ?thesis
    proof (cases "depends_on_previous ss i \<and> length parallel_batch > 0")
      case True
      with inb "1.prems"(2) unf have "j = i" "b' = parallel_batch" by simp_all
      with True inb show ?thesis by auto
    next
      case False
      then have "collect_batch ss i parallel_batch =
          collect_batch ss (i + 1) (parallel_batch @ [(i, ss ! i)])"
        using inb unf by (cases "depends_on_previous ss i") auto
      with "1.prems"(2)
      have rec: "collect_batch ss (i + 1) (parallel_batch @ [(i, ss ! i)]) = (j, b')"
        by simp
      from inb have "i + 1 \<le> length ss" by simp
      from "1.IH" [OF inb False this rec]
      have ih: "i + 1 \<le> j" "j \<le> length ss"
        "b' = (parallel_batch @ [(i, ss ! i)]) @ map (\<lambda>k. (k, ss ! k)) [i + 1..<j]"
        "\<forall>k. i + 1 < k \<and> k < j \<longrightarrow> \<not> depends_on_previous ss k"
        "i + 1 < j \<longrightarrow> \<not> depends_on_previous ss (i + 1)"
        "j < length ss \<longrightarrow> depends_on_previous ss j \<and> b' \<noteq> []"
        by simp_all
      from ih(1) have upt: "[i..<j] = i # [i + 1..<j]"
        by (simp add: upt_conv_Cons)
      have nodep: "\<not> depends_on_previous ss k" if "i < k \<and> k < j" for k
      proof (cases "k = i + 1")
        case True
        with that ih(5) show ?thesis by simp
      next
        case False
        with that ih(4) show ?thesis by simp
      qed
      from False have first: "parallel_batch \<noteq> [] \<longrightarrow> \<not> depends_on_previous ss i"
        by blast
      from ih(1) have "i \<le> j" by simp
      moreover note ih(2)
      moreover from ih(3) upt have "b' = parallel_batch @ map (\<lambda>k. (k, ss ! k)) [i..<j]"
        by simp
      ultimately show ?thesis
        using nodep first ih(6) by blast
    qed
  qed
qed

lemma run_in_order_skip:
  "j \<le> length ss \<Longrightarrow> i \<le> j \<Longrightarrow> \<forall>k. i \<le> k \<and> k < j \<longrightarrow> \<not> depends_on_previous ss k \<Longrightarrow>
     run_in_order rt tools ss i rs =
       run_in_order rt tools ss j (rs @ map (\<lambda>k. execute_step rt (tools k) (ss ! k)) [i..<j])"
proof (induction "j - i" arbitrary: i rs)
  case 0
  then show ?case by simp
next
  case (Suc n)
  then have lt: "i < j" "i < length ss" by simp_all
  with Suc.prems have nd: "\<not> depends_on_previous ss i" by simp
  have step: "run_in_order rt tools ss i rs =
      run_in_order rt tools ss (i + 1) (rs @ [execute_step rt (tools i) (ss ! i)])"
    using lt nd by (simp add: run_in_order.simps [of rt tools ss i rs])
  have "n = j - (i + 1)" using Suc.hyps(2) by simp
  from Suc.hyps(1) [OF this Suc.prems(1)] lt Suc.prems(3)
  have "run_in_order rt tools ss (i + 1) (rs @ [execute_step rt (tools i) (ss ! i)]) =
      run_in_order rt tools ss j ((rs @ [execute_step rt (tools i) (ss ! i)]) @
         map (\<lambda>k. execute_step rt (tools k) (ss ! k)) [i + 1..<j])"
    by simp
  with step lt show ?case by (simp add: upt_conv_Cons)
qed


lemma inject_title_fields:
  "inject_title rt rs st0 = Inr st \<Longrightarrow>
     tool st = tool st0 \<and> action st = action st0 \<and> step_number st = step_number st0 \<and>
     reasoning st = reasoning st0"
  by (auto simp: inject_title_def split: if_splits option.splits pyval.splits)

lemma depends_update:
  "tool st = tool (ss ! j) \<Longrightarrow> action st = action (ss ! j) \<Longrightarrow>
     depends_on_previous (ss[j := st]) k = depends_on_previous ss k"
  by (cases "j < length ss")
     (auto simp: depends_on_previous_def nth_list_update list_update_beyond)

lemma run_in_order_done:
  "length ss \<le> i \<Longrightarrow> run_in_order rt tools ss i rs = Inr (ss, rs)"
  by (simp add: run_in_order.simps [of rt tools ss i rs])

lemma run_plan_in_order:
  assumes perm: "\<And>xs. mset (gather xs) = mset xs"
  shows "(i < length ss \<longrightarrow> \<not> depends_on_previous ss i) \<Longrightarrow>
     run_plan rt gather tools ss i rs = run_in_order rt tools ss i rs"
proof (induction "length ss - i" arbitrary: ss i rs rule: less_induct)
  case less
  show ?case
  proof (cases "i < length ss")
    case False
    then show ?thesis
      by (simp add: run_plan.simps [of rt gather tools ss i rs]
          run_in_order.simps [of rt tools ss i rs])
  next
    case inb: True
    with less.prems have nd: "\<not> depends_on_previous ss i" by simp
    obtain j pb where cb: "collect_batch ss i [] = (j, pb)"
      by (cases "collect_batch ss i []") auto
    from inb have "i \<le> length ss" by simp
    from collect_batch_spec [OF this cb]
    have sp: "i \<le> j" "j \<le> length ss" "pb = map (\<lambda>k. (k, ss ! k)) [i..<j]"
      "\<forall>k. i < k \<and> k < j \<longrightarrow> \<not> depends_on_previous ss k"
      "j < length ss \<longrightarrow> depends_on_previous ss j \<and> pb \<noteq> []"
      by blast+
    have ij: "i < j"
    proof (rule ccontr)
      assume "\<not> i < j"
      with sp(1) have "j = i" by simp
      with inb sp(5) nd show False by simp
    qed
    with sp(3) have pbne: "pb \<noteq> []" by simp
    have nodep: "\<forall>k. i \<le> k \<and> k < j \<longrightarrow> \<not> depends_on_previous ss k"
      using sp(4) nd by (metis le_neq_implies_less)
    define xs where "xs = map (\<lambda>k. (k, execute_step rt (tools k) (ss ! k))) [i..<j]"
    have batch: "map (\<lambda>(idx, st). (idx, execute_step rt (tools idx) st)) pb = xs"
      by (simp add: sp(3) xs_def)
    have keys: "map fst xs = [i..<j]"
      by (simp add: xs_def comp_def)
    have sorted_back: "sort_key fst (gather xs) = xs"
      by (rule sort_key_restores_order) (simp_all add: perm keys)
    define rs1 where "rs1 = rs @ map (\<lambda>k. execute_step rt (tools k) (ss ! k)) [i..<j]"
    have snd_xs: "map snd xs = map (\<lambda>k. execute_step rt (tools k) (ss ! k)) [i..<j]"
      by (simp add: xs_def comp_def)
    have skip: "run_in_order rt tools ss i rs = run_in_order rt tools ss j rs1"
      unfolding rs1_def by (rule run_in_order_skip [OF sp(2) sp(1) nodep])
    show ?thesis
    proof (cases "j < length ss")
      case False
      with sp(2) have "j = length ss" by simp
      then have "run_in_order rt tools ss j rs1 = Inr (ss, rs1)"
        by (simp add: run_in_order_done)
      moreover have "run_plan rt gather tools ss i rs = Inr (ss, rs1)"
        using inb False pbne unfolding rs1_def
        by (simp add: run_plan.simps [of rt gather tools ss i rs] cb batch sorted_back
            snd_xs Let_def)
      ultimately show ?thesis using skip by simp
    next
      case jb: True
      with sp(5) have dj: "depends_on_previous ss j" by simp
      have plan_unf: "run_plan rt gather tools ss i rs =
          (case inject_title rt rs1 (ss ! j) of
             Inl e \<Rightarrow> Inl e
           | Inr st \<Rightarrow> run_plan rt gather tools (ss[j := st]) (j + 1)
                        (rs1 @ [execute_step rt (tools j) st]))"
        using inb jb pbne unfolding rs1_def
        by (simp add: run_plan.simps [of rt gather tools ss i rs] cb batch sorted_back
            snd_xs Let_def split: sum.split)
      have ord_unf: "run_in_order rt tools ss j rs1 =
          (case inject_title rt rs1 (ss ! j) of
             Inl e \<Rightarrow> Inl e
           | Inr st \<Rightarrow> run_in_order rt tools (ss[j := st]) (j + 1)
                        (rs1 @ [execute_step rt (tools j) st]))"
        using jb dj by (simp add: run_in_order.simps [of rt tools ss j rs1])
      show ?thesis
      proof (cases "inject_title rt rs1 (ss ! j)")
        case (Inl e)
        with plan_unf ord_unf skip show ?thesis by simp
      next
        case (Inr st)
        from inject_title_fields [OF Inr]
        have same: "tool st = tool (ss ! j)" "action st = action (ss ! j)" by simp_all
        from dj have "action (ss ! j) = ''get_summary''"
          by (simp add: depends_on_previous_def)
        with same jb have "\<not> depends_on_previous (ss[j := st]) (j + 1)"
          by (simp add: depends_on_previous_def)
        moreover have "length (ss[j := st]) - (j + 1) < length ss - i"
          using ij jb by simp
        ultimately have "run_plan rt gather tools (ss[j := st]) (j + 1)
              (rs1 @ [execute_step rt (tools j) st]) =
            run_in_order rt tools (ss[j := st]) (j + 1) (rs1 @ [execute_step rt (tools j) st])"
          using less.hyps by blast
        with Inr plan_unf ord_unf skip show ?thesis by simp
      qed
    qed
  qed
qed

lemma run_in_order_results:
  "run_in_order rt tools ss i rs = Inr (ss', rs') \<Longrightarrow> length rs = i \<Longrightarrow> i \<le> length ss \<Longrightarrow>
     length ss' = length ss \<and> length rs' = length ss \<and>
     (\<forall>k < i. rs' ! k = rs ! k \<and> ss' ! k = ss ! k) \<and>
     (\<forall>k. i \<le> k \<and> k < length ss \<longrightarrow>
        rs' ! k = execute_step rt (tools k) (ss' ! k) \<and>
        (if depends_on_previous ss k
         then inject_title rt (take k rs') (ss ! k) = Inr (ss' ! k)
         else ss' ! k = ss ! k))"
proof (induction rt tools ss i rs arbitrary: ss' rs' rule: run_in_order.induct)
  case (1 rt tools ss i rs)
  note unf = run_in_order.simps [of rt tools ss i rs]
  show ?case
  proof (cases "i < length ss")
    case False
    with "1.prems" unf have "ss' = ss" "rs' = rs" "i = length ss" by simp_all
    with "1.prems"(2) show ?thesis by auto
  next
    case inb: True
    define st where "st = (if depends_on_previous ss i
        then (case inject_title rt rs (ss ! i) of Inr s \<Rightarrow> s | Inl e \<Rightarrow> ss ! i) else ss ! i)"
    define ss1 where "ss1 = (if depends_on_previous ss i then ss[i := st] else ss)"
    define rs1 where "rs1 = rs @ [execute_step rt (tools i) st]"
    have inj: "depends_on_previous ss i \<Longrightarrow> inject_title rt rs (ss ! i) = Inr st"
      using "1.prems"(1) inb unf by (auto simp: st_def split: sum.splits)
    have rec: "run_in_order rt tools ss1 (i + 1) rs1 = Inr (ss', rs')"
    proof (cases "depends_on_previous ss i")
      case True
      with inj have "inject_title rt rs (ss ! i) = Inr st" by simp
      with True "1.prems"(1) inb unf show ?thesis
        by (simp add: ss1_def rs1_def)
    next
      case False
      with "1.prems"(1) inb unf show ?thesis
        by (simp add: ss1_def rs1_def st_def)
    qed
    have fields: "tool st = tool (ss ! i)" "action st = action (ss ! i)"
    proof -
      show "tool st = tool (ss ! i)"
      proof (cases "depends_on_previous ss i")
        case True
        from inject_title_fields [OF inj [OF True]] show ?thesis by simp
      next
        case False
        then show ?thesis by (simp add: st_def)
      qed
      show "action st = action (ss ! i)"
      proof (cases "depends_on_previous ss i")
        case True
        from inject_title_fields [OF inj [OF True]] show ?thesis by simp
      next
        case False
        then show ?thesis by (simp add: st_def)
      qed
    qed
    have len1: "length ss1 = length ss" by (simp add: ss1_def)
    have ss1_i: "ss1 ! i = st" using inb by (simp add: ss1_def st_def)
    have ss1_other: "k \<noteq> i \<Longrightarrow> ss1 ! k = ss ! k" for k by (simp add: ss1_def)
    have dep1: "depends_on_previous ss1 k = depends_on_previous ss k" for k
      using fields by (simp add: ss1_def depends_update)
    have ih: "length ss' = length ss1 \<and> length rs' = length ss1 \<and>
       (\<forall>k < i + 1. rs' ! k = rs1 ! k \<and> ss' ! k = ss1 ! k) \<and>
       (\<forall>k. i + 1 \<le> k \<and> k < length ss1 \<longrightarrow>
          rs' ! k = execute_step rt (tools k) (ss' ! k) \<and>
          (if depends_on_previous ss1 k
           then inject_title rt (take k rs') (ss1 ! k) = Inr (ss' ! k)
           else ss' ! k = ss1 ! k))"
    proof (cases "depends_on_previous ss i")
      case True
      from inj [OF True] have a: "inject_title rt rs (ss ! i) = Inr st" .
      have e1: "ss1 = ss[i := st]" using True by (simp add: ss1_def)
      from rec have b: "run_in_order rt tools (ss[i := st]) (i + 1)
          (rs @ [execute_step rt (tools i) st]) = Inr (ss', rs')"
        by (simp add: e1 rs1_def)
      have l: "length (rs @ [execute_step rt (tools i) st]) = i + 1"
        using "1.prems"(2) by simp
      have l2: "i + 1 \<le> length (ss[i := st])" using inb by simp
      show ?thesis
        unfolding e1 rs1_def by (rule "1.IH"(1) [OF inb True a b l l2])
    next
      case False
      then have e: "st = ss ! i" by (simp add: st_def)
      have e1: "ss1 = ss" using False by (simp add: ss1_def)
      from rec have b: "run_in_order rt tools ss (i + 1)
          (rs @ [execute_step rt (tools i) (ss ! i)]) = Inr (ss', rs')"
        by (simp add: e1 rs1_def e)
      have l: "length (rs @ [execute_step rt (tools i) (ss ! i)]) = i + 1"
        using "1.prems"(2) by simp
      have l2: "i + 1 \<le> length ss" using inb by simp
      show ?thesis
        unfolding e1 rs1_def e by (rule "1.IH"(2) [OF inb False b l l2])
    qed
    have below: "rs' ! k = rs ! k \<and> ss' ! k = ss ! k" if "k < i" for k
    proof -
      from that ih have "rs' ! k = rs1 ! k" "ss' ! k = ss1 ! k" by simp_all
      with that "1.prems"(2) show ?thesis
        by (simp add: rs1_def nth_append ss1_other)
    qed
    have at_i: "rs' ! i = execute_step rt (tools i) st" "ss' ! i = st"
    proof -
      from ih have "rs' ! i = rs1 ! i" "ss' ! i = ss1 ! i" by simp_all
      with "1.prems"(2) ss1_i show "rs' ! i = execute_step rt (tools i) st" "ss' ! i = st"
        by (simp_all add: rs1_def nth_append)
    qed
    have take_i: "take i rs' = rs"
    proof (rule nth_equalityI)
      show "length (take i rs') = length rs"
        using ih len1 inb "1.prems"(2) by simp
    next
      fix k assume "k < length (take i rs')"
      then have "k < i" by simp
      with below show "take i rs' ! k = rs ! k" by simp
    qed
    have above: "rs' ! k = execute_step rt (tools k) (ss' ! k) \<and>
        (if depends_on_previous ss k
         then inject_title rt (take k rs') (ss ! k) = Inr (ss' ! k)
         else ss' ! k = ss ! k)" if "i \<le> k \<and> k < length ss" for k
    proof (cases "k = i")
      case True
      show ?thesis
      proof (cases "depends_on_previous ss i")
        case d: True
        with True at_i take_i inj show ?thesis by simp
      next
        case d: False
        then have "st = ss ! i" by (simp add: st_def)
        with True at_i d show ?thesis by simp
      qed
    next
      case False
      with that have "i + 1 \<le> k \<and> k < length ss1" by (simp add: len1)
      with ih have "rs' ! k = execute_step rt (tools k) (ss' ! k) \<and>
          (if depends_on_previous ss1 k
           then inject_title rt (take k rs') (ss1 ! k) = Inr (ss' ! k)
           else ss' ! k = ss1 ! k)" by blast
      moreover from False have "ss1 ! k = ss ! k" by (rule ss1_other)
      ultimately show ?thesis
        by (cases "depends_on_previous ss k") (simp_all add: dep1)
    qed
    from ih have "length ss' = length ss" "length rs' = length ss"
      by (simp_all add: len1)
    with below above show ?thesis by blast
  qed
qed

lemma those_Some: "those xs = Some ys \<Longrightarrow> xs = map Some ys"
  by (induction xs arbitrary: ys) (auto split: option.splits)

lemma search_results_items:
  assumes "search_results body = Some found" and "x \<in> set found"
  shows "\<exists>t d u. x = PDict [(''title'', t), (''description'', d), (''url'', u)]"
proof (cases "found = []")
  case True
  with assms(2) show ?thesis by simp
next
  case False
  with assms(1) obtain titles descriptions urls m where
    th: "those (map (search_item titles descriptions urls) [0..<m]) = Some found"
    by (auto simp: search_results_def split: option.splits if_splits)
  from those_Some [OF th] have "map (search_item titles descriptions urls) [0..<m] = map Some found" .
  then have "Some x \<in> set (map (search_item titles descriptions urls) [0..<m])"
    using assms(2) by simp
  then obtain i where "search_item titles descriptions urls i = Some x" by auto
  then show ?thesis
    by (auto simp: search_item_def split: option.splits)
qed

lemma map_of_filter_keys:
  "k \<in> S \<Longrightarrow> map_of (filter (\<lambda>(k', v). k' \<in> S) ps) k = map_of ps k"
  by (induction ps) auto

lemma wikipedia_search_success:
  "truthy (dict_get d ''success'') \<Longrightarrow> wikipedia_search rt response q l = PDict d \<Longrightarrow>
     \<exists>body found. response = Inr body \<and> search_results body = Some found \<and>
        d = [(''success'', PBool True), (''query'', q), (''results'', PList found)]"
  by (auto simp: wikipedia_search_def dict_get_def split: sum.splits exc.splits option.splits)

lemma wikipedia_search_dict: "\<exists>d. wikipedia_search rt response q l = PDict d"
  by (auto simp: wikipedia_search_def split: sum.splits exc.splits option.splits)

lemma wikipedia_search_flag:
  "wikipedia_search rt response q l = PDict d \<Longrightarrow> map_of d ''success'' \<noteq> None"
  by (auto simp: wikipedia_search_def split: sum.splits exc.splits option.splits)

lemma normalize_result_success:
  "success (normalize_result rt tn (PDict d)) \<Longrightarrow> map_of d ''success'' = Some flag \<Longrightarrow>
     truthy flag \<and> data (normalize_result rt tn (PDict d)) = Some d"
  by (auto simp: normalize_result_def execution_error_def split: if_splits option.splits pyval.splits)

lemma search_outcome:
  assumes "tool st = ''wikipedia''" and "action st = ''search''"
    and "success (execute_step rt (the_tools rt w) st)"
  shows "\<exists>q body found. map_of (params st) ''query'' = Some q \<and>
      wiki_search_response w = Inr body \<and> search_results body = Some found \<and>
      data (execute_step rt (the_tools rt w) st) =
        Some [(''success'', PBool True), (''query'', q), (''results'', PList found)]"
proof -
  define kw where "kw = filter (\<lambda>(k, v). k \<in> set [''query'', ''limit'']) (params st)"
  have q_kw: "map_of kw ''query'' = map_of (params st) ''query''"
    unfolding kw_def by (rule map_of_filter_keys) simp
  define l where "l = (case map_of kw ''limit'' of None \<Rightarrow> PInt 5 | Some l \<Rightarrow> l)"
  have ex: "execute_step rt (the_tools rt w) st =
      (case map_of kw ''query'' of
         None \<Rightarrow> execution_error ''wikipedia'' (err_msg rt (PDict kw))
       | Some q \<Rightarrow> normalize_result rt ''wikipedia''
                    (wikipedia_search rt (wiki_search_response w) q l))"
    using assms(1,2)
    by (simp add: execute_step_def the_tools_def wikipedia_tool_def kw_def l_def Let_def
        split: option.splits)
  show ?thesis
  proof (cases "map_of kw ''query''")
    case None
    with ex assms(3) show ?thesis by (simp add: execution_error_def)
  next
    case (Some q)
    obtain d where d: "wikipedia_search rt (wiki_search_response w) q l = PDict d"
      using wikipedia_search_dict by blast
    from wikipedia_search_flag [OF d] obtain flag where fl: "map_of d ''success'' = Some flag"
      by auto
    from ex Some d have ex': "execute_step rt (the_tools rt w) st =
        normalize_result rt ''wikipedia'' (PDict d)" by simp
    from normalize_result_success [OF _ fl, of rt "''wikipedia''"] assms(3) ex'
    have tr: "truthy flag" and dat: "data (execute_step rt (the_tools rt w) st) = Some d"
      by simp_all
    from tr fl have "truthy (dict_get d ''success'')" by (simp add: dict_get_def)
    from wikipedia_search_success [OF this d] Some q_kw dat show ?thesis by auto
  qed
qed

lemma execute_step_tool: "result_tool (execute_step rt tools st) = tool st"
  by (simp add: execute_step_def normalize_result_def execution_error_def Let_def
      split: option.splits attr.splits outcome.splits pyval.splits)

lemma inject_title_search:
  assumes ne: "rs \<noteq> []"
    and tl: "result_tool (last rs) = ''wikipedia''"
    and st: "tool st = ''wikipedia''" "action st = ''get_summary''"
    and shape: "success (last rs) \<longrightarrow>
      (\<exists>q found. data (last rs) =
          Some [(''success'', PBool True), (''query'', q), (''results'', PList found)] \<and>
        (\<forall>x \<in> set found. \<exists>t d u.
           x = PDict [(''title'', t), (''description'', d), (''url'', u)]))"
  shows "inject_title rt rs st = Inr (injected_step (last rs) st)"
proof (cases "success (last rs)")
  case False
  then show ?thesis
    by (simp add: inject_title_def injected_step_def split: option.splits)
next
  case True
  with shape obtain q found where
    d: "data (last rs) = Some [(''success'', PBool True), (''query'', q), (''results'', PList found)]"
    and items: "\<forall>x \<in> set found. \<exists>t d u.
           x = PDict [(''title'', t), (''description'', d), (''url'', u)]"
    by blast
  show ?thesis
  proof (cases found)
    case Nil
    with True d ne tl st show ?thesis
      by (simp add: inject_title_def injected_step_def first_title_def dict_get_def)
  next
    case (Cons x xs)
    with items obtain t de u where x: "x = PDict [(''title'', t), (''description'', de), (''url'', u)]"
      by auto
    with Cons True d ne tl st show ?thesis
      by (simp add: inject_title_def injected_step_def first_title_def dict_get_def)
  qed
qed

lemma search_step_shape:
  assumes "tool st = ''wikipedia''" and "action st = ''search''"
  shows "success (execute_step rt (the_tools rt w) st) \<longrightarrow>
      (\<exists>q found. data (execute_step rt (the_tools rt w) st) =
          Some [(''success'', PBool True), (''query'', q), (''results'', PList found)] \<and>
        (\<forall>x \<in> set found. \<exists>t d u.
           x = PDict [(''title'', t), (''description'', d), (''url'', u)]))"
proof
  assume "success (execute_step rt (the_tools rt w) st)"
  from search_outcome [OF assms this] obtain q body found where
    "search_results body = Some found"
    "data (execute_step rt (the_tools rt w) st) =
        Some [(''success'', PBool True), (''query'', q), (''results'', PList found)]"
    by blast
  with search_results_items show "\<exists>q found. data (execute_step rt (the_tools rt w) st) =
          Some [(''success'', PBool True), (''query'', q), (''results'', PList found)] \<and>
        (\<forall>x \<in> set found. \<exists>t d u.
           x = PDict [(''title'', t), (''description'', d), (''url'', u)])"
    by blast
qed

lemma inject_after_search:
  assumes dep: "depends_on_previous ss i"
    and len: "length rs = i"
    and lst: "last rs = execute_step rt (the_tools rt w) (ss ! (i - 1))"
  shows "inject_title rt rs (ss ! i) = Inr (injected_step (last rs) (ss ! i))"
proof (rule inject_title_search)
  from dep have "0 < i" by (simp add: depends_on_previous_def)
  with len show "rs \<noteq> []" by auto
  from dep have prev: "tool (ss ! (i - 1)) = ''wikipedia''" "action (ss ! (i - 1)) = ''search''"
    by (simp_all add: depends_on_previous_def)
  from prev(1) show "result_tool (last rs) = ''wikipedia''"
    by (simp add: lst execute_step_tool)
  from dep show "tool (ss ! i) = ''wikipedia''" "action (ss ! i) = ''get_summary''"
    by (simp_all add: depends_on_previous_def)
  from search_step_shape [OF prev, of rt w]
  show "success (last rs) \<longrightarrow>
      (\<exists>q found. data (last rs) =
          Some [(''success'', PBool True), (''query'', q), (''results'', PList found)] \<and>
        (\<forall>x \<in> set found. \<exists>t d u.
           x = PDict [(''title'', t), (''description'', d), (''url'', u)]))"
    by (simp add: lst)
qed

lemma run_in_order_total:
  "length rs = i \<Longrightarrow>
   (0 < i \<longrightarrow> last rs = execute_step rt (the_tools rt (w (i - 1))) (ss ! (i - 1))) \<Longrightarrow>
   \<exists>ss' rs'. run_in_order rt (\<lambda>k. the_tools rt (w k)) ss i rs = Inr (ss', rs')"
proof (induction "length ss - i" arbitrary: ss i rs rule: less_induct)
  case less
  let ?tools = "\<lambda>k. the_tools rt (w k)"
  note unf = run_in_order.simps [of rt ?tools ss i rs]
  show ?case
  proof (cases "i < length ss")
    case False
    then show ?thesis by (simp add: run_in_order_done)
  next
    case inb: True
    show ?thesis
    proof (cases "depends_on_previous ss i")
      case True
      then have "0 < i" by (simp add: depends_on_previous_def)
      with less.prems(2) have lst: "last rs = execute_step rt (the_tools rt (w (i - 1))) (ss ! (i - 1))"
        by simp
      define st where "st = injected_step (last rs) (ss ! i)"
      from inject_after_search [OF True less.prems(1) lst]
      have inj: "inject_title rt rs (ss ! i) = Inr st" by (simp add: st_def)
      have step: "run_in_order rt ?tools ss i rs =
          run_in_order rt ?tools (ss[i := st]) (i + 1) (rs @ [execute_step rt (?tools i) st])"
        using inb True inj by (simp add: unf)
      have "\<exists>ss' rs'. run_in_order rt ?tools (ss[i := st]) (i + 1)
          (rs @ [execute_step rt (?tools i) st]) = Inr (ss', rs')"
      proof (rule less.hyps)
        show "length (ss[i := st]) - (i + 1) < length ss - i" using inb by simp
        show "length (rs @ [execute_step rt (?tools i) st]) = i + 1"
          using less.prems(1) by simp
        show "0 < i + 1 \<longrightarrow> last (rs @ [execute_step rt (?tools i) st]) =
            execute_step rt (the_tools rt (w (i + 1 - 1))) (ss[i := st] ! (i + 1 - 1))"
          using inb by simp
      qed
      with step show ?thesis by simp
    next
      case False
      have step: "run_in_order rt ?tools ss i rs =
          run_in_order rt ?tools ss (i + 1) (rs @ [execute_step rt (?tools i) (ss ! i)])"
        using inb False by (simp add: unf)
      have "\<exists>ss' rs'. run_in_order rt ?tools ss (i + 1)
          (rs @ [execute_step rt (?tools i) (ss ! i)]) = Inr (ss', rs')"
      proof (rule less.hyps)
        show "length ss - (i + 1) < length ss - i" using inb by simp
        show "length (rs @ [execute_step rt (?tools i) (ss ! i)]) = i + 1"
          using less.prems(1) by simp
        show "0 < i + 1 \<longrightarrow> last (rs @ [execute_step rt (?tools i) (ss ! i)]) =
            execute_step rt (the_tools rt (w (i + 1 - 1))) (ss ! (i + 1 - 1))"
          by simp
      qed
      with step show ?thesis by simp
    qed
  qed
qed

lemma execute_plan_dispatch:
  assumes perm: "\<And>xs. mset (gather xs) = mset xs"
  shows "\<exists>er. execute_plan rt gather (\<lambda>k. the_tools rt (w k)) p = Inr er \<and>
     length (results er) = length (steps p) \<and>
     length (steps (plan er)) = length (steps p) \<and>
     (\<forall>k < length (steps p).
        results er ! k = execute_step rt (the_tools rt (w k)) (steps (plan er) ! k) \<and>
        steps (plan er) ! k =
          (if depends_on_previous (steps p) k
           then injected_step (results er ! (k - 1)) (steps p ! k)
           else steps p ! k))"
proof -
  let ?tools = "\<lambda>k. the_tools rt (w k)"
  let ?ss = "steps p"
  have start: "0 < length ?ss \<longrightarrow> \<not> depends_on_previous ?ss 0"
    by (simp add: depends_on_previous_def)
  have eq: "run_plan rt gather ?tools ?ss 0 [] = run_in_order rt ?tools ?ss 0 []"
    by (rule run_plan_in_order [OF perm start])
  obtain ss' rs' where run: "run_in_order rt ?tools ?ss 0 [] = Inr (ss', rs')"
    using run_in_order_total [of "[]" 0 rt w ?ss] by auto
  from run_in_order_results [OF run]
  have len: "length ss' = length ?ss" "length rs' = length ?ss"
    and each: "\<forall>k. 0 \<le> k \<and> k < length ?ss \<longrightarrow>
        rs' ! k = execute_step rt (?tools k) (ss' ! k) \<and>
        (if depends_on_previous ?ss k
         then inject_title rt (take k rs') (?ss ! k) = Inr (ss' ! k)
         else ss' ! k = ?ss ! k)"
    by simp_all
  have disp: "ss' ! k = (if depends_on_previous ?ss k
        then injected_step (rs' ! (k - 1)) (?ss ! k) else ?ss ! k)" if k: "k < length ?ss" for k
  proof (cases "depends_on_previous ?ss k")
    case False
    with each k show ?thesis by simp
  next
    case True
    with each k have inj: "inject_title rt (take k rs') (?ss ! k) = Inr (ss' ! k)" by simp
    from True have pos: "0 < k" and prev: "action (?ss ! (k - 1)) = ''search''"
      by (simp_all add: depends_on_previous_def)
    then have nd: "\<not> depends_on_previous ?ss (k - 1)"
      by (simp add: depends_on_previous_def)
    from pos k have k1: "k - 1 < length ?ss" by simp
    with each nd have same: "ss' ! (k - 1) = ?ss ! (k - 1)"
      and r1: "rs' ! (k - 1) = execute_step rt (?tools (k - 1)) (ss' ! (k - 1))"
      by simp_all
    have lt: "length (take k rs') = k" using k len by simp
    have tne: "take k rs' \<noteq> []" using pos k len by auto
    have la: "last (take k rs') = take k rs' ! (length (take k rs') - 1)"
      by (rule last_conv_nth [OF tne])
    have lb: "take k rs' ! (k - 1) = rs' ! (k - 1)"
      using pos by (intro nth_take) simp
    have lst: "last (take k rs') = rs' ! (k - 1)"
      by (rule trans [OF la [unfolded lt] lb])
    with r1 same have lst': "last (take k rs') =
        execute_step rt (the_tools rt (w (k - 1))) (?ss ! (k - 1))" by simp
    from inject_after_search [OF True lt lst'] inj lst True show ?thesis by simp
  qed
  define er where "er = \<lparr>plan = p\<lparr>steps := ss'\<rparr>, results = rs'\<rparr>"
  have res: "results er = rs'" and sts: "steps (plan er) = ss'"
    by (simp_all add: er_def)
  have ex: "execute_plan rt gather ?tools p = Inr er"
    by (simp add: execute_plan_def eq run er_def)
  have all: "results er ! k = execute_step rt (the_tools rt (w k)) (steps (plan er) ! k) \<and>
        steps (plan er) ! k =
          (if depends_on_previous ?ss k
           then injected_step (results er ! (k - 1)) (?ss ! k)
           else ?ss ! k)" if k: "k < length ?ss" for k
  proof
    from each k show "results er ! k = execute_step rt (the_tools rt (w k)) (steps (plan er) ! k)"
      unfolding res sts by blast
    from disp [OF k] show "steps (plan er) ! k =
          (if depends_on_previous ?ss k
           then injected_step (results er ! (k - 1)) (?ss ! k)
           else ?ss ! k)"
      unfolding res sts .
  qed
  show ?thesis
  proof (intro exI [of _ er] conjI allI impI)
    show "execute_plan rt gather ?tools p = Inr er" by (rule ex)
    show "length (results er) = length ?ss" unfolding res by (rule len(2))
    show "length (steps (plan er)) = length ?ss" unfolding sts by (rule len(1))
  next
    fix k assume k: "k < length ?ss"
    from all [OF k]
    show "results er ! k = execute_step rt (the_tools rt (w k)) (steps (plan er) ! k)"
      by (rule conjunct1)
    from all [OF k]
    show "steps (plan er) ! k =
          (if depends_on_previous ?ss k
           then injected_step (results er ! (k - 1)) (?ss ! k)
           else ?ss ! k)"
      by (rule conjunct2)
  qed
qed

lemma injected_step_fields:
  "tool (injected_step prev st) = tool st \<and> action (injected_step prev st) = action st"
  by (simp add: injected_step_def split: option.splits)

lemma execute_plan_returned:
  assumes perm: "\<And>xs. mset (gather xs) = mset xs"
    and ret: "execute_plan rt gather tools p = Inr er"
    and k: "k < length (steps p)"
  shows "length (results er) = length (steps p) \<and>
     length (steps (plan er)) = length (steps p) \<and>
     results er ! k = execute_step rt (tools k) (steps (plan er) ! k) \<and>
     (if depends_on_previous (steps p) k
      then inject_title rt (take k (results er)) (steps p ! k) = Inr (steps (plan er) ! k)
      else steps (plan er) ! k = steps p ! k)"
proof -
  let ?ss = "steps p"
  have start: "0 < length ?ss \<longrightarrow> \<not> depends_on_previous ?ss 0"
    by (simp add: depends_on_previous_def)
  have eq: "run_plan rt gather tools ?ss 0 [] = run_in_order rt tools ?ss 0 []"
    by (rule run_plan_in_order [OF perm start])
  from ret obtain ss' rs' where run: "run_plan rt gather tools ?ss 0 [] = Inr (ss', rs')"
    and er: "er = \<lparr>plan = p\<lparr>steps := ss'\<rparr>, results = rs'\<rparr>"
    by (auto simp: execute_plan_def split: sum.splits)
  have res: "results er = rs'" and sts: "steps (plan er) = ss'"
    by (simp_all add: er)
  from run eq have "run_in_order rt tools ?ss 0 [] = Inr (ss', rs')" by simp
  from run_in_order_results [OF this] k
  show ?thesis unfolding res sts by simp
qed

section \<open>Claims about the scheduler\<close>

text \<open>
  C1. For every plan, on the registry of the program and whatever the order in which the
  members of a batch complete, \<open>execute_plan\<close> returns, with one outcome per step, and the
  outcome at each index carries the tool of the step at that index.
\<close>

theorem outcomes_aligned_with_steps:
  assumes "\<forall>xs. mset (gather xs) = mset xs"
  shows "\<exists>er. execute_plan rt gather (\<lambda>k. the_tools rt (w k)) p = Inr er \<and>
     length (results er) = length (steps p) \<and>
     (\<forall>i < length (steps p). result_tool (results er ! i) = tool (steps p ! i))"
proof -
  from assms have perm: "\<And>xs. mset (gather xs) = mset xs" by simp
  from execute_plan_dispatch [OF perm, of rt w p] obtain er where
    ret: "execute_plan rt gather (\<lambda>k. the_tools rt (w k)) p = Inr er"
    and len: "length (results er) = length (steps p)"
    and each: "\<forall>k < length (steps p).
        results er ! k = execute_step rt (the_tools rt (w k)) (steps (plan er) ! k) \<and>
        steps (plan er) ! k =
          (if depends_on_previous (steps p) k
           then injected_step (results er ! (k - 1)) (steps p ! k)
           else steps p ! k)"
    by blast
  have "result_tool (results er ! i) = tool (steps p ! i)" if "i < length (steps p)" for i
  proof -
    from each that have r: "results er ! i =
        execute_step rt (the_tools rt (w i)) (steps (plan er) ! i)"
      and s: "steps (plan er) ! i =
          (if depends_on_previous (steps p) i
           then injected_step (results er ! (i - 1)) (steps p ! i)
           else steps p ! i)"
      by simp_all
    have "tool (steps (plan er) ! i) = tool (steps p ! i)"
      by (cases "depends_on_previous (steps p) i") (simp_all add: s injected_step_fields)
    with r show ?thesis by (simp add: execute_step_tool)
  qed
  with ret len show ?thesis by blast
qed

theorem outcomes_aligned_with_steps_witness:
  "(\<forall>xs :: (nat \<times> ToolResult) list. mset (rev xs) = mset xs) \<and>
   (\<exists>er. execute_plan demo_rt rev (\<lambda>k. the_tools demo_rt nepal_world)
          (demo_plan [unknown_step, search_step ''Nepal'', summary_step [(''title'', PStr ''Nepal'')]])
        = Inr er \<and>
      length (results er) = 3 \<and>
      result_tool (results er ! 0) = ''doesnotexist'' \<and>
      result_tool (results er ! 1) = ''wikipedia'' \<and>
      result_tool (results er ! 2) = ''wikipedia'')"
proof -
  have perm: "\<forall>xs :: (nat \<times> ToolResult) list. mset (rev xs) = mset xs" by simp
  from outcomes_aligned_with_steps [OF perm, of demo_rt "\<lambda>k. nepal_world"
      "demo_plan [unknown_step, search_step ''Nepal'', summary_step [(''title'', PStr ''Nepal'')]]"]
  obtain er where
    "execute_plan demo_rt rev (\<lambda>k. the_tools demo_rt nepal_world)
          (demo_plan [unknown_step, search_step ''Nepal'', summary_step [(''title'', PStr ''Nepal'')]])
        = Inr er"
    "length (results er) = 3"
    "\<forall>i < 3. result_tool (results er ! i) =
        tool ([unknown_step, search_step ''Nepal'', summary_step [(''title'', PStr ''Nepal'')]] ! i)"
    by (auto simp: demo_plan_def)
  moreover from this(3) have "result_tool (results er ! 0) = ''doesnotexist''"
    "result_tool (results er ! 1) = ''wikipedia''" "result_tool (results er ! 2) = ''wikipedia''"
    by (simp_all add: unknown_step_def search_step_def summary_step_def)
  ultimately show ?thesis using perm by blast
qed

lemma unknown_tool_result:
  "tool st \<notin> {''github'', ''weather'', ''news'', ''countries'', ''crypto'', ''wikipedia''} \<Longrightarrow>
     execute_step rt (the_tools rt w) st =
       \<lparr>result_tool = tool st, success = False, data = None,
        error = Some (''Tool '' @ sq @ tool st @ sq @ '' not found'')\<rparr>"
  by (simp add: execute_step_def the_tools_def Let_def)

text \<open>
  C9, as amended. A step whose tool is not one of the six of the registry yields the
  outcome \<open>success = False\<close> with the error \<open>Tool '<id>' not found\<close>, and every step of
  the plan, before or after it, still has its own outcome, the one of its execution.
\<close>

theorem unknown_tool_does_not_stop_plan:
  assumes "\<forall>xs. mset (gather xs) = mset xs"
    and "i < length (steps p)"
    and "tool (steps p ! i) \<notin> {''github'', ''weather'', ''news'', ''countries'', ''crypto'', ''wikipedia''}"
  shows "\<exists>er. execute_plan rt gather (\<lambda>k. the_tools rt (w k)) p = Inr er \<and>
     length (results er) = length (steps p) \<and>
     results er ! i =
       \<lparr>result_tool = tool (steps p ! i), success = False, data = None,
        error = Some (''Tool '' @ sq @ tool (steps p ! i) @ sq @ '' not found'')\<rparr> \<and>
     (\<forall>k < length (steps p).
        results er ! k = execute_step rt (the_tools rt (w k)) (steps (plan er) ! k))"
proof -
  from assms(1) have perm: "\<And>xs. mset (gather xs) = mset xs" by simp
  from execute_plan_dispatch [OF perm, of rt w p] obtain er where
    ret: "execute_plan rt gather (\<lambda>k. the_tools rt (w k)) p = Inr er"
    and len: "length (results er) = length (steps p)"
    and each: "\<forall>k < length (steps p).
        results er ! k = execute_step rt (the_tools rt (w k)) (steps (plan er) ! k) \<and>
        steps (plan er) ! k =
          (if depends_on_previous (steps p) k
           then injected_step (results er ! (k - 1)) (steps p ! k)
           else steps p ! k)"
    by blast
  from assms(3) have "\<not> depends_on_previous (steps p) i"
    by (auto simp: depends_on_previous_def)
  with each assms(2) have "results er ! i = execute_step rt (the_tools rt (w i)) (steps p ! i)"
    by simp
  with unknown_tool_result [OF assms(3), of rt "w i"]
  have "results er ! i =
       \<lparr>result_tool = tool (steps p ! i), success = False, data = None,
        error = Some (''Tool '' @ sq @ tool (steps p ! i) @ sq @ '' not found'')\<rparr>"
    by simp
  with ret len each show ?thesis by blast
qed

theorem unknown_tool_does_not_stop_plan_witness:
  "(\<forall>xs :: (nat \<times> ToolResult) list. mset (rev xs) = mset xs) \<and>
   (\<exists>er. execute_plan demo_rt rev (\<lambda>k. the_tools demo_rt nepal_world)
          (demo_plan [unknown_step, search_step ''Nepal'']) = Inr er \<and>
      length (results er) = 2 \<and>
      results er ! 0 =
        \<lparr>result_tool = ''doesnotexist'', success = False, data = None,
         error = Some (''Tool '' @ sq @ ''doesnotexist'' @ sq @ '' not found'')\<rparr> \<and>
      results er ! 1 =
        execute_step demo_rt (the_tools demo_rt nepal_world) (steps (plan er) ! 1))"
proof -
  have perm: "\<forall>xs :: (nat \<times> ToolResult) list. mset (rev xs) = mset xs" by simp
  have i: "0 < length (steps (demo_plan [unknown_step, search_step ''Nepal'']))"
    by (simp add: demo_plan_def)
  have t: "tool (steps (demo_plan [unknown_step, search_step ''Nepal'']) ! 0) \<notin>
      {''github'', ''weather'', ''news'', ''countries'', ''crypto'', ''wikipedia''}"
    by (simp add: demo_plan_def unknown_step_def)
  from unknown_tool_does_not_stop_plan [OF perm i t, of demo_rt "\<lambda>k. nepal_world"]
  obtain er where
    "execute_plan demo_rt rev (\<lambda>k. the_tools demo_rt nepal_world)
          (demo_plan [unknown_step, search_step ''Nepal'']) = Inr er"
    "length (results er) = 2"
    "results er ! 0 =
        \<lparr>result_tool = ''doesnotexist'', success = False, data = None,
         error = Some (''Tool '' @ sq @ ''doesnotexist'' @ sq @ '' not found'')\<rparr>"
    "\<forall>k < 2. results er ! k =
        execute_step demo_rt (the_tools demo_rt nepal_world) (steps (plan er) ! k)"
    by (auto simp: demo_plan_def unknown_step_def)
  moreover from this(4) have "results er ! 1 =
        execute_step demo_rt (the_tools demo_rt nepal_world) (steps (plan er) ! 1)"
    by simp
  ultimately show ?thesis using perm by blast
qed

text \<open>
  The error of that outcome does not contain the text \<open>tool not found\<close>: it names the tool
  between \<open>Tool\<close> and \<open>not found\<close>.
\<close>

theorem unknown_tool_message_counterexample:
  "error (execute_step demo_rt (the_tools demo_rt nepal_world) unknown_step) =
     Some (''Tool '' @ sq @ ''doesnotexist'' @ sq @ '' not found'') \<and>
   \<not> py_contains ''tool not found'' (''Tool '' @ sq @ ''doesnotexist'' @ sq @ '' not found'')"
  by (simp add: execute_step_def the_tools_def unknown_step_def sq_def Let_def)

lemma injected_step_failed: "\<not> success prev \<Longrightarrow> injected_step prev st = st"
  by (simp add: injected_step_def split: option.splits)

lemma injected_step_distinct_title:
  "map_of (params st) ''title'' = Some t \<Longrightarrow>
   (\<forall>d. data prev = Some d \<longrightarrow> \<not> py_eq t (dict_get d ''query'')) \<Longrightarrow>
     injected_step prev st = st"
  by (simp add: injected_step_def dict_get_def split: option.splits)

lemma injected_step_changes:
  "injected_step prev st \<noteq> st \<Longrightarrow>
     success prev \<and>
     (\<exists>d t. data prev = Some d \<and> d \<noteq> [] \<and>
        (map_of (params st) ''title'' = None \<or>
         py_eq (dict_get (params st) ''title'') (dict_get d ''query'')) \<and>
        first_title d = Some t)"
  by (auto simp: injected_step_def split: option.splits if_splits)

lemma injected_step_overwrites:
  "success prev \<Longrightarrow> data prev = Some d \<Longrightarrow> d \<noteq> [] \<Longrightarrow>
   map_of (params st) ''title'' = None \<or>
     py_eq (dict_get (params st) ''title'') (dict_get d ''query'') \<Longrightarrow>
   first_title d = Some t \<Longrightarrow>
     injected_step prev st = st\<lparr>params := dict_set ''title'' t (params st)\<rparr>"
  by (auto simp: injected_step_def)

text \<open>
  C2, as amended. A dependent step (a Wikipedia \<open>get_summary\<close> right after a Wikipedia
  \<open>search\<close>) is always executed, with the parameters left by the injection. The outcome
  before it is the one of the search. Its \<open>title\<close> is overwritten with the title of the
  first item of the search results if and only if the search succeeded with a payload, the
  \<open>title\<close> is absent or equal to the payload's \<open>query\<close>, and the result list has a first
  item. When the search failed the step runs with the planner's parameters, and a title
  that differs from the query is never overridden.
\<close>

theorem dependent_step_injection:
  assumes "\<forall>xs. mset (gather xs) = mset xs"
    and "k < length (steps p)"
    and "depends_on_previous (steps p) k"
  shows "\<exists>er. execute_plan rt gather (\<lambda>i. the_tools rt (w i)) p = Inr er \<and>
     results er ! k = execute_step rt (the_tools rt (w k)) (steps (plan er) ! k) \<and>
     results er ! (k - 1) = execute_step rt (the_tools rt (w (k - 1))) (steps p ! (k - 1)) \<and>
     steps (plan er) ! k = injected_step (results er ! (k - 1)) (steps p ! k) \<and>
     (\<forall>d t. success (results er ! (k - 1)) \<and> data (results er ! (k - 1)) = Some d \<and> d \<noteq> [] \<and>
        (map_of (params (steps p ! k)) ''title'' = None \<or>
         py_eq (dict_get (params (steps p ! k)) ''title'') (dict_get d ''query'')) \<and>
        first_title d = Some t \<longrightarrow>
        steps (plan er) ! k =
          (steps p ! k)\<lparr>params := dict_set ''title'' t (params (steps p ! k))\<rparr>) \<and>
     (steps (plan er) ! k \<noteq> steps p ! k \<longrightarrow>
        success (results er ! (k - 1)) \<and>
        (\<exists>d t. data (results er ! (k - 1)) = Some d \<and> d \<noteq> [] \<and>
           (map_of (params (steps p ! k)) ''title'' = None \<or>
            py_eq (dict_get (params (steps p ! k)) ''title'') (dict_get d ''query'')) \<and>
           first_title d = Some t)) \<and>
     (\<not> success (results er ! (k - 1)) \<longrightarrow> steps (plan er) ! k = steps p ! k) \<and>
     (\<forall>t. map_of (params (steps p ! k)) ''title'' = Some t \<and>
          (\<forall>d. data (results er ! (k - 1)) = Some d \<longrightarrow> \<not> py_eq t (dict_get d ''query''))
          \<longrightarrow> steps (plan er) ! k = steps p ! k)"
proof -
  from assms(1) have perm: "\<And>xs. mset (gather xs) = mset xs" by simp
  from execute_plan_dispatch [OF perm, of rt w p] obtain er where
    ret: "execute_plan rt gather (\<lambda>k. the_tools rt (w k)) p = Inr er"
    and len: "length (results er) = length (steps p)"
    and each: "\<forall>k < length (steps p).
        results er ! k = execute_step rt (the_tools rt (w k)) (steps (plan er) ! k) \<and>
        steps (plan er) ! k =
          (if depends_on_previous (steps p) k
           then injected_step (results er ! (k - 1)) (steps p ! k)
           else steps p ! k)"
    by blast
  from each assms(2,3) have rk: "results er ! k =
      execute_step rt (the_tools rt (w k)) (steps (plan er) ! k)"
    and sk: "steps (plan er) ! k = injected_step (results er ! (k - 1)) (steps p ! k)"
    by simp_all
  from assms(3) have pos: "0 < k" and prev: "action (steps p ! (k - 1)) = ''search''"
    by (simp_all add: depends_on_previous_def)
  then have nd: "\<not> depends_on_previous (steps p) (k - 1)"
    by (simp add: depends_on_previous_def)
  from pos assms(2) have "k - 1 < length (steps p)" by simp
  with each nd have rp: "results er ! (k - 1) =
      execute_step rt (the_tools rt (w (k - 1))) (steps p ! (k - 1))"
    by simp
  have over: "\<forall>d t. success (results er ! (k - 1)) \<and> data (results er ! (k - 1)) = Some d \<and>
        d \<noteq> [] \<and>
        (map_of (params (steps p ! k)) ''title'' = None \<or>
         py_eq (dict_get (params (steps p ! k)) ''title'') (dict_get d ''query'')) \<and>
        first_title d = Some t \<longrightarrow>
        steps (plan er) ! k =
          (steps p ! k)\<lparr>params := dict_set ''title'' t (params (steps p ! k))\<rparr>"
    unfolding sk using injected_step_overwrites by blast
  have only: "steps (plan er) ! k \<noteq> steps p ! k \<longrightarrow>
        success (results er ! (k - 1)) \<and>
        (\<exists>d t. data (results er ! (k - 1)) = Some d \<and> d \<noteq> [] \<and>
           (map_of (params (steps p ! k)) ''title'' = None \<or>
            py_eq (dict_get (params (steps p ! k)) ''title'') (dict_get d ''query'')) \<and>
           first_title d = Some t)"
    unfolding sk using injected_step_changes by blast
  have failed: "\<not> success (results er ! (k - 1)) \<longrightarrow> steps (plan er) ! k = steps p ! k"
    by (simp add: sk injected_step_failed)
  have kept: "\<forall>t. map_of (params (steps p ! k)) ''title'' = Some t \<and>
          (\<forall>d. data (results er ! (k - 1)) = Some d \<longrightarrow> \<not> py_eq t (dict_get d ''query''))
          \<longrightarrow> steps (plan er) ! k = steps p ! k"
    unfolding sk using injected_step_distinct_title by blast
  from ret rk rp sk over only failed kept show ?thesis by blast
qed

theorem dependent_step_injection_witness:
  "(\<forall>xs :: (nat \<times> ToolResult) list. mset (rev xs) = mset xs) \<and>
   (\<exists>er. execute_plan demo_rt rev (\<lambda>i. the_tools demo_rt nepal_world)
          (demo_plan [search_step ''Nepal'', summary_step [(''title'', PStr ''Nepal'')]]) = Inr er \<and>
      steps (plan er) ! 1 = summary_step [(''title'', PStr ''Nepal (country)'')] \<and>
      results er ! 1 =
        execute_step demo_rt (the_tools demo_rt nepal_world)
          (summary_step [(''title'', PStr ''Nepal (country)'')]))"
proof -
  let ?p = "demo_plan [search_step ''Nepal'', summary_step [(''title'', PStr ''Nepal'')]]"
  have perm: "\<forall>xs :: (nat \<times> ToolResult) list. mset (rev xs) = mset xs" by simp
  have k: "1 < length (steps ?p)" by (simp add: demo_plan_def)
  have d: "depends_on_previous (steps ?p) 1"
    by (simp add: demo_plan_def depends_on_previous_def search_step_def summary_step_def)
  from dependent_step_injection [OF perm k d, of demo_rt "\<lambda>k. nepal_world"]
  obtain er where
    ret: "execute_plan demo_rt rev (\<lambda>i. the_tools demo_rt nepal_world) ?p = Inr er"
    and rk: "results er ! 1 =
        execute_step demo_rt (the_tools demo_rt nepal_world) (steps (plan er) ! 1)"
    and rp: "results er ! 0 =
        execute_step demo_rt (the_tools demo_rt nepal_world) (steps ?p ! 0)"
    and sk: "steps (plan er) ! 1 = injected_step (results er ! 0) (steps ?p ! 1)"
    by auto
  have r0: "results er ! 0 =
      \<lparr>result_tool = ''wikipedia'', success = True,
       data = Some [(''success'', PBool True), (''query'', PStr ''Nepal''),
         (''results'', PList [PDict [(''title'', PStr ''Nepal (country)''),
            (''description'', PStr ''''),
            (''url'', PStr ''https://en.wikipedia.org/wiki/Nepal'')]])],
       error = None\<rparr>"
    unfolding rp
    by (simp add: demo_plan_def search_step_def execute_step_def the_tools_def
        wikipedia_tool_def nepal_world_def wikipedia_search_def search_results_def
        search_item_def normalize_result_def Let_def)
  have "steps (plan er) ! 1 = summary_step [(''title'', PStr ''Nepal (country)'')]"
    unfolding sk r0
    by (simp add: injected_step_def first_title_def dict_get_def demo_plan_def summary_step_def)
  with ret rk perm show ?thesis by auto
qed

text \<open>
  The claim as stated fails when the search finds nothing: the search succeeded with a
  payload and the step has no \<open>title\<close>, yet no \<open>title\<close> is written.
\<close>

theorem empty_search_counterexample:
  "(case execute_plan demo_rt rev (\<lambda>i. the_tools demo_rt empty_world)
          (demo_plan [search_step ''zzz'', summary_step []]) of
      Inl e \<Rightarrow> False
    | Inr er \<Rightarrow>
        success (results er ! 0) \<and>
        data (results er ! 0) =
          Some [(''success'', PBool True), (''query'', PStr ''zzz''), (''results'', PList [])] \<and>
        map_of (params (summary_step [])) ''title'' = None \<and>
        map_of (params (steps (plan er) ! 1)) ''title'' = None)"
proof -
  let ?p = "demo_plan [search_step ''zzz'', summary_step []]"
  have perm: "\<And>xs :: (nat \<times> ToolResult) list. mset (rev xs) = mset xs" by simp
  from execute_plan_dispatch [OF perm, of demo_rt "\<lambda>k. empty_world" ?p] obtain er where
    ret: "execute_plan demo_rt rev (\<lambda>k. the_tools demo_rt empty_world) ?p = Inr er"
    and each: "\<forall>k < length (steps ?p).
        results er ! k = execute_step demo_rt (the_tools demo_rt empty_world) (steps (plan er) ! k) \<and>
        steps (plan er) ! k =
          (if depends_on_previous (steps ?p) k
           then injected_step (results er ! (k - 1)) (steps ?p ! k)
           else steps ?p ! k)"
    by blast
  have d0: "\<not> depends_on_previous (steps ?p) 0" and d1: "depends_on_previous (steps ?p) 1"
    by (simp_all add: demo_plan_def depends_on_previous_def search_step_def summary_step_def)
  have l: "0 < length (steps ?p)" "1 < length (steps ?p)" by (simp_all add: demo_plan_def)
  from each l(1) d0 have "results er ! 0 =
      execute_step demo_rt (the_tools demo_rt empty_world) (steps ?p ! 0)" by simp
  then have r0: "results er ! 0 =
      \<lparr>result_tool = ''wikipedia'', success = True,
       data = Some [(''success'', PBool True), (''query'', PStr ''zzz''), (''results'', PList [])],
       error = None\<rparr>"
    by (simp add: demo_plan_def search_step_def execute_step_def the_tools_def
        wikipedia_tool_def empty_world_def wikipedia_search_def search_results_def
        search_item_def normalize_result_def Let_def)
  from each l(2) d1 have "steps (plan er) ! 1 = injected_step (results er ! 0) (steps ?p ! 1)"
    by simp
  then have s1: "steps (plan er) ! 1 = summary_step []"
    unfolding r0
    by (simp add: injected_step_def first_title_def dict_get_def demo_plan_def summary_step_def)
  show ?thesis
    unfolding ret using r0 s1 by (simp add: summary_step_def)
qed

lemma inject_title_empty:
  "data (last rs) = Some d \<Longrightarrow>
   map_of d ''results'' = None \<or> map_of d ''results'' = Some (PList []) \<Longrightarrow>
     inject_title rt rs st = Inr st"
  by (auto simp: inject_title_def dict_get_def)

text \<open>
  C10. When the outcome before a dependent step succeeded with a payload whose \<open>results\<close>
  list is empty or absent, nothing is injected: the step is dispatched with exactly its
  original parameters, whatever its \<open>title\<close>.
\<close>

theorem empty_results_no_injection:
  assumes "\<forall>xs. mset (gather xs) = mset xs"
    and "execute_plan rt gather tools p = Inr er"
    and "k < length (steps p)"
    and "depends_on_previous (steps p) k"
    and "success (results er ! (k - 1))"
    and "data (results er ! (k - 1)) = Some d"
    and "map_of d ''results'' = None \<or> map_of d ''results'' = Some (PList [])"
  shows "steps (plan er) ! k = steps p ! k \<and>
     results er ! k = execute_step rt (tools k) (steps p ! k)"
proof -
  from assms(1) have perm: "\<And>xs. mset (gather xs) = mset xs" by simp
  from execute_plan_returned [OF perm assms(2,3)] assms(4)
  have len: "length (results er) = length (steps p)"
    and rk: "results er ! k = execute_step rt (tools k) (steps (plan er) ! k)"
    and inj: "inject_title rt (take k (results er)) (steps p ! k) = Inr (steps (plan er) ! k)"
    by simp_all
  from assms(4) have pos: "0 < k" by (simp add: depends_on_previous_def)
  have lt: "length (take k (results er)) = k" using assms(3) len by simp
  have tne: "take k (results er) \<noteq> []" using pos assms(3) len by auto
  have la: "last (take k (results er)) = take k (results er) ! (length (take k (results er)) - 1)"
    by (rule last_conv_nth [OF tne])
  have lb: "take k (results er) ! (k - 1) = results er ! (k - 1)"
    using pos by (intro nth_take) simp
  have lst: "last (take k (results er)) = results er ! (k - 1)"
    by (rule trans [OF la [unfolded lt] lb])
  from assms(6) lst have "data (last (take k (results er))) = Some d" by simp
  from inject_title_empty [OF this assms(7), of rt "steps p ! k"] inj
  have "steps (plan er) ! k = steps p ! k" by simp
  with rk show ?thesis by simp
qed

theorem empty_results_no_injection_witness:
  "(\<forall>xs :: (nat \<times> ToolResult) list. mset (rev xs) = mset xs) \<and>
   (\<exists>er. execute_plan demo_rt rev (\<lambda>i. the_tools demo_rt empty_world)
          (demo_plan [search_step ''zzz'', summary_step [(''title'', PStr ''zzz'')]]) = Inr er \<and>
      success (results er ! 0) \<and>
      data (results er ! 0) =
        Some [(''success'', PBool True), (''query'', PStr ''zzz''), (''results'', PList [])] \<and>
      steps (plan er) ! 1 = summary_step [(''title'', PStr ''zzz'')] \<and>
      results er ! 1 =
        execute_step demo_rt (the_tools demo_rt empty_world)
          (summary_step [(''title'', PStr ''zzz'')]))"
proof -
  let ?p = "demo_plan [search_step ''zzz'', summary_step [(''title'', PStr ''zzz'')]]"
  let ?d = "[(''success'', PBool True), (''query'', PStr ''zzz''), (''results'', PList [])]"
  have perm: "\<forall>xs :: (nat \<times> ToolResult) list. mset (rev xs) = mset xs" by simp
  then have perm': "\<And>xs :: (nat \<times> ToolResult) list. mset (rev xs) = mset xs" by simp
  from execute_plan_dispatch [OF perm', of demo_rt "\<lambda>k. empty_world" ?p] obtain er where
    ret: "execute_plan demo_rt rev (\<lambda>k. the_tools demo_rt empty_world) ?p = Inr er"
    and each: "\<forall>k < length (steps ?p).
        results er ! k = execute_step demo_rt (the_tools demo_rt empty_world) (steps (plan er) ! k) \<and>
        steps (plan er) ! k =
          (if depends_on_previous (steps ?p) k
           then injected_step (results er ! (k - 1)) (steps ?p ! k)
           else steps ?p ! k)"
    by blast
  have d0: "\<not> depends_on_previous (steps ?p) 0" and d1: "depends_on_previous (steps ?p) 1"
    by (simp_all add: demo_plan_def depends_on_previous_def search_step_def summary_step_def)
  have l: "0 < length (steps ?p)" "1 < length (steps ?p)" by (simp_all add: demo_plan_def)
  from each l(1) d0 have "results er ! 0 =
      execute_step demo_rt (the_tools demo_rt empty_world) (steps ?p ! 0)" by simp
  then have r0: "results er ! 0 =
      \<lparr>result_tool = ''wikipedia'', success = True, data = Some ?d, error = None\<rparr>"
    by (simp add: demo_plan_def search_step_def execute_step_def the_tools_def
        wikipedia_tool_def empty_world_def wikipedia_search_def search_results_def
        search_item_def normalize_result_def Let_def)
  have s: "success (results er ! (1 - 1))" and dd: "data (results er ! (1 - 1)) = Some ?d"
    by (simp_all add: r0)
  have e: "map_of ?d ''results'' = None \<or> map_of ?d ''results'' = Some (PList [])" by simp
  from empty_results_no_injection [OF perm ret l(2) d1 s dd e]
  have "steps (plan er) ! 1 = summary_step [(''title'', PStr ''zzz'')]"
    "results er ! 1 = execute_step demo_rt (the_tools demo_rt empty_world)
          (summary_step [(''title'', PStr ''zzz'')])"
    by (simp_all add: demo_plan_def)
  with ret r0 perm show ?thesis by auto
qed

section \<open>Claims about the step runner\<close>

lemma normalize_result_cases:
  "(success (normalize_result rt tn v) \<longrightarrow> error (normalize_result rt tn v) = None) \<and>
   (\<not> success (normalize_result rt tn v) \<longrightarrow> data (normalize_result rt tn v) = None) \<and>
   (success (normalize_result rt tn v) \<and> data (normalize_result rt tn v) = None \<longrightarrow> v = PNone) \<and>
   (\<not> success (normalize_result rt tn v) \<and> error (normalize_result rt tn v) = None \<longrightarrow>
      (\<exists>d flag. v = PDict d \<and> map_of d ''success'' = Some flag \<and> \<not> truthy flag \<and>
         map_of d ''error'' = Some PNone))"
  by (cases v)
     (auto simp: normalize_result_def execution_error_def split: option.splits pyval.splits)

lemma execute_step_method:
  "tools (tool st) = Some tobj \<Longrightarrow> tobj (action st) = Some (Method valid m) \<Longrightarrow>
     execute_step rt tools st =
       (case m (filter (\<lambda>(k, v). k \<in> set valid) (params st)) of
          Raises cause \<Rightarrow> execution_error (tool st) cause
        | Returns v \<Rightarrow> normalize_result rt (tool st) v)"
  by (simp add: execute_step_def Let_def)

lemma execute_step_forms:
  obtains
    (no_tool) "tools (tool st) = None"
      "execute_step rt tools st =
         \<lparr>result_tool = tool st, success = False, data = None,
          error = Some (''Tool '' @ sq @ tool st @ sq @ '' not found'')\<rparr>"
  | (no_action) tobj where "tools (tool st) = Some tobj" "tobj (action st) = None"
      "execute_step rt tools st =
         \<lparr>result_tool = tool st, success = False, data = None,
          error = Some (''Action '' @ sq @ action st @ sq @ '' not found in tool '' @ sq
                        @ tool st @ sq)\<rparr>"
  | (not_callable) tobj cause where "tools (tool st) = Some tobj"
      "tobj (action st) = Some (NotCallable cause)"
      "execute_step rt tools st = execution_error (tool st) cause"
  | (raises) tobj valid m cause where "tools (tool st) = Some tobj"
      "tobj (action st) = Some (Method valid m)"
      "m (filter (\<lambda>(k, v). k \<in> set valid) (params st)) = Raises cause"
      "execute_step rt tools st = execution_error (tool st) cause"
  | (returns) tobj valid m v where "tools (tool st) = Some tobj"
      "tobj (action st) = Some (Method valid m)"
      "m (filter (\<lambda>(k, v). k \<in> set valid) (params st)) = Returns v"
      "execute_step rt tools st = normalize_result rt (tool st) v"
proof (cases "tools (tool st)")
  case None
  then show ?thesis using no_tool by (simp add: execute_step_def Let_def)
next
  case (Some tobj)
  show ?thesis
  proof (cases "tobj (action st)")
    case None
    with Some show ?thesis using no_action by (simp add: execute_step_def Let_def)
  next
    case at: (Some a)
    show ?thesis
    proof (cases a)
      case (NotCallable cause)
      with Some at show ?thesis using not_callable by (simp add: execute_step_def Let_def)
    next
      case (Method valid m)
      show ?thesis
      proof (cases "m (filter (\<lambda>(k, v). k \<in> set valid) (params st))")
        case (Raises cause)
        with Some at Method show ?thesis
          using raises by (simp add: execute_step_method)
      next
        case (Returns v)
        with Some at Method show ?thesis
          using returns by (simp add: execute_step_method)
      qed
    qed
  qed
qed

text \<open>
  C5, as amended. The step runner always produces one outcome, for the tool of the step.
  An exception raised by the signature inspection or by the invocation gives
  \<open>success = False\<close> with the error \<open>Execution error: <cause>\<close>. A successful outcome has no
  error, a failed one no data. A successful outcome lacks data only when the operation
  returned \<open>None\<close>, and a failed one lacks an error only when the operation returned a
  payload whose \<open>success\<close> is false and whose \<open>error\<close> is \<open>None\<close>. An exception raised
  while the outcome is built gives \<open>Execution error: <cause>\<close> too: when the operation
  returned a value that is neither \<open>None\<close> nor a dictionary, and when it returned a payload
  whose \<open>success\<close> is false and whose \<open>error\<close> is neither a string nor \<open>None\<close>. A returned
  payload without a false \<open>success\<close> is the data of a successful outcome; a payload whose
  \<open>success\<close> is false gives a failed outcome with the payload's \<open>error\<close> string, or
  \<open>Unknown error\<close> when the payload has none.
\<close>

theorem execute_step_captures_failures:
  "result_tool (execute_step rt tools st) = tool st \<and>
   (\<forall>tobj cause.
      tools (tool st) = Some tobj \<and> tobj (action st) = Some (NotCallable cause) \<longrightarrow>
      execute_step rt tools st =
        \<lparr>result_tool = tool st, success = False, data = None,
         error = Some (''Execution error: '' @ cause)\<rparr>) \<and>
   (\<forall>tobj valid m cause.
      tools (tool st) = Some tobj \<and> tobj (action st) = Some (Method valid m) \<and>
      m (filter (\<lambda>(k, v). k \<in> set valid) (params st)) = Raises cause \<longrightarrow>
      execute_step rt tools st =
        \<lparr>result_tool = tool st, success = False, data = None,
         error = Some (''Execution error: '' @ cause)\<rparr>) \<and>
   (success (execute_step rt tools st) \<longrightarrow> error (execute_step rt tools st) = None) \<and>
   (\<not> success (execute_step rt tools st) \<longrightarrow> data (execute_step rt tools st) = None) \<and>
   (success (execute_step rt tools st) \<and> data (execute_step rt tools st) = None \<longrightarrow>
      (\<exists>tobj valid m.
         tools (tool st) = Some tobj \<and> tobj (action st) = Some (Method valid m) \<and>
         m (filter (\<lambda>(k, v). k \<in> set valid) (params st)) = Returns PNone)) \<and>
   (\<not> success (execute_step rt tools st) \<and> error (execute_step rt tools st) = None \<longrightarrow>
      (\<exists>tobj valid m d flag.
         tools (tool st) = Some tobj \<and> tobj (action st) = Some (Method valid m) \<and>
         m (filter (\<lambda>(k, v). k \<in> set valid) (params st)) = Returns (PDict d) \<and>
         map_of d ''success'' = Some flag \<and> \<not> truthy flag \<and>
         map_of d ''error'' = Some PNone)) \<and>
   (\<forall>tobj valid m v.
      tools (tool st) = Some tobj \<and> tobj (action st) = Some (Method valid m) \<and>
      m (filter (\<lambda>(k, v). k \<in> set valid) (params st)) = Returns v \<and>
      v \<noteq> PNone \<and> (\<forall>d. v \<noteq> PDict d) \<longrightarrow>
      execute_step rt tools st =
        \<lparr>result_tool = tool st, success = False, data = None,
         error = Some (''Execution error: '' @ err_msg rt v)\<rparr>) \<and>
   (\<forall>tobj valid m d flag ev.
      tools (tool st) = Some tobj \<and> tobj (action st) = Some (Method valid m) \<and>
      m (filter (\<lambda>(k, v). k \<in> set valid) (params st)) = Returns (PDict d) \<and>
      map_of d ''success'' = Some flag \<and> \<not> truthy flag \<and>
      map_of d ''error'' = Some ev \<and> ev \<noteq> PNone \<and> (\<forall>s. ev \<noteq> PStr s) \<longrightarrow>
      execute_step rt tools st =
        \<lparr>result_tool = tool st, success = False, data = None,
         error = Some (''Execution error: '' @ err_msg rt ev)\<rparr>) \<and>
   (\<forall>tobj valid m d.
      tools (tool st) = Some tobj \<and> tobj (action st) = Some (Method valid m) \<and>
      m (filter (\<lambda>(k, v). k \<in> set valid) (params st)) = Returns (PDict d) \<and>
      (map_of d ''success'' = None \<or> (\<exists>flag. map_of d ''success'' = Some flag \<and> truthy flag))
      \<longrightarrow>
      execute_step rt tools st =
        \<lparr>result_tool = tool st, success = True, data = Some d, error = None\<rparr>) \<and>
   (\<forall>tobj valid m d flag s.
      tools (tool st) = Some tobj \<and> tobj (action st) = Some (Method valid m) \<and>
      m (filter (\<lambda>(k, v). k \<in> set valid) (params st)) = Returns (PDict d) \<and>
      map_of d ''success'' = Some flag \<and> \<not> truthy flag \<and>
      map_of d ''error'' = Some (PStr s) \<longrightarrow>
      execute_step rt tools st =
        \<lparr>result_tool = tool st, success = False, data = None, error = Some s\<rparr>) \<and>
   (\<forall>tobj valid m d flag.
      tools (tool st) = Some tobj \<and> tobj (action st) = Some (Method valid m) \<and>
      m (filter (\<lambda>(k, v). k \<in> set valid) (params st)) = Returns (PDict d) \<and>
      map_of d ''success'' = Some flag \<and> \<not> truthy flag \<and> map_of d ''error'' = None \<longrightarrow>
      execute_step rt tools st =
        \<lparr>result_tool = tool st, success = False, data = None,
         error = Some ''Unknown error''\<rparr>)"
proof (intro conjI allI impI)
  show "result_tool (execute_step rt tools st) = tool st" by (rule execute_step_tool)
next
  fix tobj cause
  assume "tools (tool st) = Some tobj \<and> tobj (action st) = Some (NotCallable cause)"
  then show "execute_step rt tools st =
      \<lparr>result_tool = tool st, success = False, data = None,
       error = Some (''Execution error: '' @ cause)\<rparr>"
    by (simp add: execute_step_def execution_error_def Let_def)
next
  fix tobj valid m cause
  assume "tools (tool st) = Some tobj \<and> tobj (action st) = Some (Method valid m) \<and>
      m (filter (\<lambda>(k, v). k \<in> set valid) (params st)) = Raises cause"
  then show "execute_step rt tools st =
      \<lparr>result_tool = tool st, success = False, data = None,
       error = Some (''Execution error: '' @ cause)\<rparr>"
    by (simp add: execute_step_method execution_error_def)
next
  assume a: "success (execute_step rt tools st)"
  show "error (execute_step rt tools st) = None"
  proof (cases rule: execute_step_forms [of tools st rt])
    case (returns tobj valid m v)
    with a normalize_result_cases [of rt "tool st" v] show ?thesis by simp
  qed (use a in \<open>simp_all add: execution_error_def\<close>)
next
  assume a: "\<not> success (execute_step rt tools st)"
  show "data (execute_step rt tools st) = None"
  proof (cases rule: execute_step_forms [of tools st rt])
    case (returns tobj valid m v)
    with a normalize_result_cases [of rt "tool st" v] show ?thesis by simp
  qed (simp_all add: execution_error_def)
next
  assume a: "success (execute_step rt tools st) \<and> data (execute_step rt tools st) = None"
  show "\<exists>tobj valid m.
         tools (tool st) = Some tobj \<and> tobj (action st) = Some (Method valid m) \<and>
         m (filter (\<lambda>(k, v). k \<in> set valid) (params st)) = Returns PNone"
  proof (cases rule: execute_step_forms [of tools st rt])
    case (returns tobj valid m v)
    with a normalize_result_cases [of rt "tool st" v] have "v = PNone" by simp
    with returns show ?thesis by blast
  qed (use a in \<open>simp_all add: execution_error_def\<close>)
next
  assume a: "\<not> success (execute_step rt tools st) \<and> error (execute_step rt tools st) = None"
  show "\<exists>tobj valid m d flag.
         tools (tool st) = Some tobj \<and> tobj (action st) = Some (Method valid m) \<and>
         m (filter (\<lambda>(k, v). k \<in> set valid) (params st)) = Returns (PDict d) \<and>
         map_of d ''success'' = Some flag \<and> \<not> truthy flag \<and>
         map_of d ''error'' = Some PNone"
  proof (cases rule: execute_step_forms [of tools st rt])
    case (returns tobj valid m v)
    with a normalize_result_cases [of rt "tool st" v]
    have "\<exists>d flag. v = PDict d \<and> map_of d ''success'' = Some flag \<and> \<not> truthy flag \<and>
         map_of d ''error'' = Some PNone" by simp
    with returns show ?thesis by blast
  qed (use a in \<open>simp_all add: execution_error_def\<close>)
next
  fix tobj valid m v
  assume a: "tools (tool st) = Some tobj \<and> tobj (action st) = Some (Method valid m) \<and>
      m (filter (\<lambda>(k, v). k \<in> set valid) (params st)) = Returns v \<and>
      v \<noteq> PNone \<and> (\<forall>d. v \<noteq> PDict d)"
  then have "execute_step rt tools st = normalize_result rt (tool st) v"
    by (simp add: execute_step_method)
  moreover from a have "normalize_result rt (tool st) v =
      \<lparr>result_tool = tool st, success = False, data = None,
       error = Some (''Execution error: '' @ err_msg rt v)\<rparr>"
    by (cases v) (simp_all add: normalize_result_def execution_error_def)
  ultimately show "execute_step rt tools st =
      \<lparr>result_tool = tool st, success = False, data = None,
       error = Some (''Execution error: '' @ err_msg rt v)\<rparr>"
    by (rule trans)
next
  fix tobj valid m d flag ev
  assume a: "tools (tool st) = Some tobj \<and> tobj (action st) = Some (Method valid m) \<and>
      m (filter (\<lambda>(k, v). k \<in> set valid) (params st)) = Returns (PDict d) \<and>
      map_of d ''success'' = Some flag \<and> \<not> truthy flag \<and>
      map_of d ''error'' = Some ev \<and> ev \<noteq> PNone \<and> (\<forall>s. ev \<noteq> PStr s)"
  then have "execute_step rt tools st = normalize_result rt (tool st) (PDict d)"
    by (simp add: execute_step_method)
  moreover from a have "normalize_result rt (tool st) (PDict d) =
      \<lparr>result_tool = tool st, success = False, data = None,
       error = Some (''Execution error: '' @ err_msg rt ev)\<rparr>"
    by (cases ev) (simp_all add: normalize_result_def execution_error_def)
  ultimately show "execute_step rt tools st =
      \<lparr>result_tool = tool st, success = False, data = None,
       error = Some (''Execution error: '' @ err_msg rt ev)\<rparr>"
    by (rule trans)
next
  fix tobj valid m d
  assume a: "tools (tool st) = Some tobj \<and> tobj (action st) = Some (Method valid m) \<and>
      m (filter (\<lambda>(k, v). k \<in> set valid) (params st)) = Returns (PDict d) \<and>
      (map_of d ''success'' = None \<or> (\<exists>flag. map_of d ''success'' = Some flag \<and> truthy flag))"
  then have "execute_step rt tools st = normalize_result rt (tool st) (PDict d)"
    by (simp add: execute_step_method)
  moreover from a have "normalize_result rt (tool st) (PDict d) =
      \<lparr>result_tool = tool st, success = True, data = Some d, error = None\<rparr>"
    by (auto simp: normalize_result_def)
  ultimately show "execute_step rt tools st =
      \<lparr>result_tool = tool st, success = True, data = Some d, error = None\<rparr>"
    by (rule trans)
next
  fix tobj valid m d flag s
  assume a: "tools (tool st) = Some tobj \<and> tobj (action st) = Some (Method valid m) \<and>
      m (filter (\<lambda>(k, v). k \<in> set valid) (params st)) = Returns (PDict d) \<and>
      map_of d ''success'' = Some flag \<and> \<not> truthy flag \<and>
      map_of d ''error'' = Some (PStr s)"
  then have "execute_step rt tools st = normalize_result rt (tool st) (PDict d)"
    by (simp add: execute_step_method)
  moreover from a have "normalize_result rt (tool st) (PDict d) =
      \<lparr>result_tool = tool st, success = False, data = None, error = Some s\<rparr>"
    by (simp add: normalize_result_def)
  ultimately show "execute_step rt tools st =
      \<lparr>result_tool = tool st, success = False, data = None, error = Some s\<rparr>"
    by (rule trans)
next
  fix tobj valid m d flag
  assume a: "tools (tool st) = Some tobj \<and> tobj (action st) = Some (Method valid m) \<and>
      m (filter (\<lambda>(k, v). k \<in> set valid) (params st)) = Returns (PDict d) \<and>
      map_of d ''success'' = Some flag \<and> \<not> truthy flag \<and> map_of d ''error'' = None"
  then have "execute_step rt tools st = normalize_result rt (tool st) (PDict d)"
    by (simp add: execute_step_method)
  moreover from a have "normalize_result rt (tool st) (PDict d) =
      \<lparr>result_tool = tool st, success = False, data = None,
       error = Some ''Unknown error''\<rparr>"
    by (simp add: normalize_result_def)
  ultimately show "execute_step rt tools st =
      \<lparr>result_tool = tool st, success = False, data = None,
       error = Some ''Unknown error''\<rparr>"
    by (rule trans)
qed

theorem execute_step_captures_failures_witness:
  "execute_step demo_rt (the_tools demo_rt nepal_world) (summary_step []) =
     \<lparr>result_tool = ''wikipedia'', success = False, data = None,
      error = Some ''Execution error: missing 1 required positional argument''\<rparr> \<and>
   execute_step demo_rt (the_tools demo_rt array_world) trending_step =
     \<lparr>result_tool = ''crypto'', success = False, data = None,
      error = Some ''Execution error: error''\<rparr>"
proof -
  let ?m = "\<lambda>kw. case map_of kw ''title'' of
                   None \<Rightarrow> Raises ''missing 1 required positional argument''
                 | Some t \<Rightarrow>
                     Returns (PDict [(''success'', PBool True), (''title'', t),
                                     (''url'', PStr ''https://en.wikipedia.org/wiki/Nepal'')])"
  have "the_tools demo_rt nepal_world (tool (summary_step [])) =
        Some (wikipedia_tool demo_rt nepal_world) \<and>
      wikipedia_tool demo_rt nepal_world (action (summary_step [])) =
        Some (Method [''title''] ?m) \<and>
      ?m (filter (\<lambda>(k, v). k \<in> set [''title'']) (params (summary_step []))) =
        Raises ''missing 1 required positional argument''"
    by (simp add: the_tools_def wikipedia_tool_def summary_step_def nepal_world_def
        demo_attrs_def)
  then have "execute_step demo_rt (the_tools demo_rt nepal_world) (summary_step []) =
      \<lparr>result_tool = tool (summary_step []), success = False, data = None,
       error = Some (''Execution error: '' @ ''missing 1 required positional argument'')\<rparr>"
    by (rule execute_step_captures_failures
        [of demo_rt "the_tools demo_rt nepal_world" "summary_step []",
         THEN conjunct2, THEN conjunct2, THEN conjunct1, rule_format])
  then have first: "execute_step demo_rt (the_tools demo_rt nepal_world) (summary_step []) =
     \<lparr>result_tool = ''wikipedia'', success = False, data = None,
      error = Some ''Execution error: missing 1 required positional argument''\<rparr>"
    by (simp add: summary_step_def)
  let ?t = "\<lambda>kw::pydict. Returns (PList [])"
  have "the_tools demo_rt array_world (tool trending_step) =
        Some (other_attrs array_world ''crypto'') \<and>
      other_attrs array_world ''crypto'' (action trending_step) = Some (Method [] ?t) \<and>
      ?t (filter (\<lambda>(k, v). k \<in> set []) (params trending_step)) = Returns (PList []) \<and>
      PList [] \<noteq> PNone \<and> (\<forall>d. PList [] \<noteq> PDict d)"
    by (simp add: the_tools_def trending_step_def array_world_def)
  then have "execute_step demo_rt (the_tools demo_rt array_world) trending_step =
      \<lparr>result_tool = tool trending_step, success = False, data = None,
       error = Some (''Execution error: '' @ err_msg demo_rt (PList []))\<rparr>"
    by (rule execute_step_captures_failures
        [of demo_rt "the_tools demo_rt array_world" trending_step,
         THEN conjunct2, THEN conjunct2, THEN conjunct2, THEN conjunct2, THEN conjunct2,
         THEN conjunct2, THEN conjunct2, THEN conjunct1, rule_format])
  then have second: "execute_step demo_rt (the_tools demo_rt array_world) trending_step =
     \<lparr>result_tool = ''crypto'', success = False, data = None,
      error = Some ''Execution error: error''\<rparr>"
    by (simp add: trending_step_def demo_rt_def)
  from first second show ?thesis by (rule conjI)
qed

text \<open>
  The claim as stated fails for an operation that returns nothing: the \<open>close\<close> method of
  a tool is an action like any other, and its outcome is a success without data.
\<close>

theorem close_action_counterexample:
  "success (execute_step demo_rt (the_tools demo_rt nepal_world) close_step) \<and>
   data (execute_step demo_rt (the_tools demo_rt nepal_world) close_step) = None \<and>
   error (execute_step demo_rt (the_tools demo_rt nepal_world) close_step) = None"
  by (simp add: execute_step_def the_tools_def wikipedia_tool_def close_step_def
      nepal_world_def normalize_result_def Let_def)

text \<open>
  C6. \<open>WikipediaTool.search\<close> makes its request once: a connection fault at the first
  attempt is the failed outcome of the step, while the same fault under the retry policy
  of \<open>WeatherTool._fetch_weather_data\<close> is retried.
\<close>

theorem wikipedia_search_not_retried:
  "execute_step demo_rt (the_tools demo_rt offline_world) (search_step ''Nepal'') =
     \<lparr>result_tool = ''wikipedia'', success = False, data = None,
      error = Some ''Wikipedia API error: All connection attempts failed''\<rparr> \<and>
   retry_condition (ConnectError ''All connection attempts failed'') \<and>
   fetch_weather_data
     (\<lambda>n. if n < 3 then Inl (ConnectError ''All connection attempts failed'')
          else Inr (PDict [(''name'', PStr ''Paris'')])) =
     (Inr (PDict [(''name'', PStr ''Paris'')]), 3, [2, 4])"
  by (simp add: execute_step_def the_tools_def wikipedia_tool_def search_step_def
      offline_world_def wikipedia_search_def normalize_result_def Let_def
      retry_condition_def fetch_weather_data_def retry_api_call_def
      retrying.simps [of _ _ _ _ _ "Suc 0"] retrying.simps [of _ _ _ _ _ "Suc (Suc 0)"]
      retrying.simps [of _ _ _ _ _ "Suc (Suc (Suc 0))"] wait_exponential_def)

section \<open>Properties of the verifier\<close>

lemma map_of_dict_set:
  "map_of (dict_set k v d) k' = (if k' = k then Some v else map_of d k')"
  by (induction d) auto

lemma dict_set_twice: "dict_set k v (dict_set k v d) = dict_set k v d"
  by (induction d) auto

lemma label_ignores_context:
  "generate_context_label rt t (dict_set ''_context'' v d) = generate_context_label rt t d"
proof -
  have keys:
    "map_of (dict_set ''_context'' v d) ''city'' = map_of d ''city''"
    "map_of (dict_set ''_context'' v d) ''query'' = map_of d ''query''"
    "map_of (dict_set ''_context'' v d) ''title'' = map_of d ''title''"
    "map_of (dict_set ''_context'' v d) ''coin'' = map_of d ''coin''"
    "map_of (dict_set ''_context'' v d) ''name'' = map_of d ''name''"
    "map_of (dict_set ''_context'' v d) ''region'' = map_of d ''region''"
    "dict_get (dict_set ''_context'' v d) ''city'' = dict_get d ''city''"
    "dict_get (dict_set ''_context'' v d) ''query'' = dict_get d ''query''"
    "dict_get (dict_set ''_context'' v d) ''title'' = dict_get d ''title''"
    "dict_get (dict_set ''_context'' v d) ''coin'' = dict_get d ''coin''"
    "dict_get (dict_set ''_context'' v d) ''name'' = dict_get d ''name''"
    "dict_get (dict_set ''_context'' v d) ''region'' = dict_get d ''region''"
    by (simp_all add: map_of_dict_set dict_get_def)
  show ?thesis
    unfolding generate_context_label_def keys by (rule refl)
qed

lemma label_nonempty: "generate_context_label rt t d = Inr (Some l) \<Longrightarrow> l \<noteq> []"
  by (auto simp: generate_context_label_def split: if_splits option.splits pyval.splits)

lemma with_context_idem:
  "with_context rt t d = Inr d' \<Longrightarrow> with_context rt t d' = Inr d'"
  by (auto simp: with_context_def label_ignores_context dict_set_twice
      split: sum.splits option.splits if_splits)

lemma with_context_fields:
  "with_context rt t d = Inr d' \<Longrightarrow> k \<noteq> ''_context'' \<Longrightarrow> map_of d' k = map_of d k"
  by (auto simp: with_context_def map_of_dict_set split: sum.splits option.splits if_splits)

lemma with_context_label:
  "with_context rt t d = Inr d' \<Longrightarrow> generate_context_label rt t d = Inr (Some l) \<Longrightarrow>
     map_of d' ''_context'' = Some (PStr l)"
  using label_nonempty [of rt t d l]
  by (auto simp: with_context_def map_of_dict_set split: sum.splits option.splits if_splits)

lemma with_context_no_label:
  "with_context rt t d = Inr d' \<Longrightarrow> generate_context_label rt t d = Inr None \<Longrightarrow> d' = d"
  by (auto simp: with_context_def split: sum.splits option.splits if_splits)

lemma store_result_other:
  "store_result rt cd t' rwc = Inr cd' \<Longrightarrow> t \<noteq> t' \<Longrightarrow> map_of cd' t = map_of cd t"
  by (auto simp: store_result_def map_of_dict_set split: option.splits pyval.splits sum.splits)

lemma store_result_grouped:
  assumes inv: "map_of cd t = grouped rt t seen"
    and ok: "\<forall>d \<in> set seen. with_context rt t d = Inr (tagged rt t d)"
    and new: "with_context rt t d = Inr rwc"
    and st: "store_result rt cd t rwc = Inr cd'"
  shows "map_of cd' t = grouped rt t (seen @ [d])"
proof -
  from new have rwc: "rwc = tagged rt t d" by (simp add: tagged_def)
  show ?thesis
  proof (cases seen)
    case Nil
    with inv have "map_of cd t = None" by (simp add: grouped_def)
    with st have "cd' = dict_set t (PDict rwc) cd" by (simp add: store_result_def)
    with Nil rwc show ?thesis by (simp add: map_of_dict_set grouped_def)
  next
    case (Cons d0 rest)
    show ?thesis
    proof (cases rest)
      case Nil
      with Cons inv have e: "map_of cd t = Some (PDict (tagged rt t d0))"
        by (simp add: grouped_def)
      from ok Cons have "with_context rt t d0 = Inr (tagged rt t d0)" by simp
      from with_context_idem [OF this]
      have "with_context rt t (tagged rt t d0) = Inr (tagged rt t d0)" .
      with st e have "cd' = dict_set t (PList [PDict (tagged rt t d0), PDict rwc]) cd"
        by (simp add: store_result_def)
      with Cons Nil rwc show ?thesis by (simp add: map_of_dict_set grouped_def)
    next
      case c2: (Cons d1 rest')
      with Cons inv have e: "map_of cd t = Some (PList (map (\<lambda>d. PDict (tagged rt t d)) seen))"
        by (simp add: grouped_def)
      with st have "cd' = dict_set t
          (PList (map (\<lambda>d. PDict (tagged rt t d)) seen @ [PDict rwc])) cd"
        by (simp add: store_result_def)
      with Cons c2 rwc show ?thesis by (simp add: map_of_dict_set grouped_def)
    qed
  qed
qed

lemma payloads_of_Cons:
  "payloads_of t (r # rs) =
     (if success r \<and> result_tool r = t
      then (case data r of None \<Rightarrow> [] | Some d \<Rightarrow> if d = [] then [] else [d]) else [])
     @ payloads_of t rs"
  by (simp add: payloads_of_def)

lemma collect_loop_details:
  "collect_loop rt rs c = Inr c' \<Longrightarrow> \<forall>r \<in> set rs. success r \<Longrightarrow>
   map_of (collected_data c) t = grouped rt t seen \<Longrightarrow>
   \<forall>d \<in> set seen. with_context rt t d = Inr (tagged rt t d) \<Longrightarrow>
     map_of (collected_data c') t = grouped rt t (seen @ payloads_of t rs) \<and>
     (\<forall>d \<in> set (seen @ payloads_of t rs). with_context rt t d = Inr (tagged rt t d))"
proof (induction rs arbitrary: c seen)
  case Nil
  then show ?case by (simp add: payloads_of_def)
next
  case (Cons r rs)
  from Cons.prems(2) have sr: "success r" and srs: "\<forall>r \<in> set rs. success r" by simp_all
  show ?case
  proof (cases "data r")
    case None
    with Cons.prems(1) have "collect_loop rt rs c = Inr c'" by simp
    from Cons.IH [OF this srs Cons.prems(3) Cons.prems(4)]
    have ih: "map_of (collected_data c') t = grouped rt t (seen @ payloads_of t rs) \<and>
       (\<forall>d \<in> set (seen @ payloads_of t rs). with_context rt t d = Inr (tagged rt t d))" .
    from None have "payloads_of t (r # rs) = payloads_of t rs"
      by (simp add: payloads_of_Cons)
    with ih show ?thesis by simp
  next
    case (Some d)
    show ?thesis
    proof (cases "d = []")
      case True
      with Some Cons.prems(1) have "collect_loop rt rs c = Inr c'" by simp
      from Cons.IH [OF this srs Cons.prems(3) Cons.prems(4)]
      have ih: "map_of (collected_data c') t = grouped rt t (seen @ payloads_of t rs) \<and>
         (\<forall>d \<in> set (seen @ payloads_of t rs). with_context rt t d = Inr (tagged rt t d))" .
      from Some True have "payloads_of t (r # rs) = payloads_of t rs"
        by (simp add: payloads_of_Cons)
      with ih show ?thesis by simp
    next
      case False
      from Cons.prems(1) Some False obtain rwc where
        wc: "with_context rt (result_tool r) d = Inr rwc"
        by (cases "with_context rt (result_tool r) d") auto
      from Cons.prems(1) Some False wc obtain cd' where
        st: "store_result rt (collected_data c) (result_tool r) rwc = Inr cd'"
        by (cases "store_result rt (collected_data c) (result_tool r) rwc") auto
      define c1 where "c1 =
        \<lparr>collected_data = cd',
         sources =
           (if py_contains ''url'' (py_str rt (PDict d))
            then extract_sources (PDict d) (sources c) else sources c),
         suggestions =
           (case map_of d ''suggestion'' of
              None \<Rightarrow> suggestions c | Some v \<Rightarrow> suggestions c @ [v]),
         correction_notes =
           (case map_of d ''correction_note'' of
              None \<Rightarrow> correction_notes c
            | Some v \<Rightarrow> correction_notes c @ [v])\<rparr>"
      have c1: "collected_data c1 = cd'" by (simp add: c1_def)
      from Cons.prems(1) Some False wc st have rest: "collect_loop rt rs c1 = Inr c'"
        by (simp add: c1_def)
      show ?thesis
      proof (cases "result_tool r = t")
        case diff: False
        then have "t \<noteq> result_tool r" by blast
        from store_result_other [OF st this] c1 Cons.prems(3)
        have "map_of (collected_data c1) t = grouped rt t seen" by simp
        from Cons.IH [OF rest srs this Cons.prems(4)]
        have ih: "map_of (collected_data c') t = grouped rt t (seen @ payloads_of t rs) \<and>
           (\<forall>d \<in> set (seen @ payloads_of t rs). with_context rt t d = Inr (tagged rt t d))" .
        from diff have "payloads_of t (r # rs) = payloads_of t rs"
          by (simp add: payloads_of_Cons)
        with ih show ?thesis by simp
      next
        case same: True
        from wc same have wc': "with_context rt t d = Inr rwc" by simp
        from st same have st': "store_result rt (collected_data c) t rwc = Inr cd'" by simp
        from store_result_grouped [OF Cons.prems(3,4) wc' st'] c1
        have inv: "map_of (collected_data c1) t = grouped rt t (seen @ [d])" by simp
        from wc' have "with_context rt t d = Inr (tagged rt t d)" by (simp add: tagged_def)
        with Cons.prems(4)
        have ok: "\<forall>d \<in> set (seen @ [d]). with_context rt t d = Inr (tagged rt t d)" by simp
        from Cons.IH [OF rest srs inv ok]
        have ih: "map_of (collected_data c') t = grouped rt t ((seen @ [d]) @ payloads_of t rs) \<and>
           (\<forall>d \<in> set ((seen @ [d]) @ payloads_of t rs).
              with_context rt t d = Inr (tagged rt t d))" .
        from same sr Some False have "payloads_of t (r # rs) = d # payloads_of t rs"
          by (simp add: payloads_of_Cons)
        with ih show ?thesis by simp
      qed
    qed
  qed
qed

lemma extract_sources_urls:
  "extract_sources v acc =
     fold (\<lambda>x a. if x \<in> set a then a else a @ [x]) (url_values v) acc"
  "extract_sources_items d acc =
     fold (\<lambda>x a. if x \<in> set a then a else a @ [x]) (url_values_items d) acc"
  "extract_sources_list xs acc =
     fold (\<lambda>x a. if x \<in> set a then a else a @ [x]) (url_values_list xs) acc"
  by (induction v acc and d acc and xs acc
      rule: extract_sources_extract_sources_items_extract_sources_list.induct) simp_all

lemma first_occurrences_snoc:
  "first_occurrences (ys @ [x]) =
     (if x \<in> set ys then first_occurrences ys else first_occurrences ys @ [x])"
  by (simp add: first_occurrences_def)

lemma set_first_occurrences: "set (first_occurrences xs) = set xs"
  by (simp add: first_occurrences_def)

lemma distinct_first_occurrences: "distinct (first_occurrences xs)"
  by (simp add: first_occurrences_def)

lemma fold_first_occurrences:
  "distinct acc \<Longrightarrow>
     fold (\<lambda>x a. if x \<in> set a then a else a @ [x]) xs acc = first_occurrences (acc @ xs)"
proof (induction xs rule: rev_induct)
  case Nil
  then show ?case by (simp add: first_occurrences_def distinct_remdups_id)
next
  case (snoc x xs)
  have "first_occurrences (acc @ xs @ [x]) =
      (if x \<in> set (acc @ xs) then first_occurrences (acc @ xs)
       else first_occurrences (acc @ xs) @ [x])"
    using first_occurrences_snoc [of "acc @ xs" x] by simp
  with snoc show ?case by (simp add: set_first_occurrences)
qed

lemma collect_loop_sources:
  "collect_loop rt rs c = Inr c' \<Longrightarrow>
   \<forall>r \<in> set rs. \<forall>d. data r = Some d \<longrightarrow> url_values (PDict d) \<noteq> [] \<longrightarrow>
       py_contains ''url'' (py_str rt (PDict d)) \<Longrightarrow>
     sources c' =
       fold (\<lambda>x a. if x \<in> set a then a else a @ [x]) (concat (map payload_urls rs)) (sources c)"
proof (induction rs arbitrary: c)
  case Nil
  then show ?case by simp
next
  case (Cons r rs)
  from Cons.prems(2) have gate: "\<forall>r \<in> set rs. \<forall>d. data r = Some d \<longrightarrow>
      url_values (PDict d) \<noteq> [] \<longrightarrow> py_contains ''url'' (py_str rt (PDict d))"
    by simp
  show ?case
  proof (cases "data r")
    case None
    with Cons.prems(1) have "collect_loop rt rs c = Inr c'" by simp
    from Cons.IH [OF this gate] None show ?thesis by (simp add: payload_urls_def)
  next
    case (Some d)
    show ?thesis
    proof (cases "d = []")
      case True
      with Some Cons.prems(1) have "collect_loop rt rs c = Inr c'" by simp
      from Cons.IH [OF this gate] Some True show ?thesis by (simp add: payload_urls_def)
    next
      case False
      from Cons.prems(1) Some False obtain rwc where
        wc: "with_context rt (result_tool r) d = Inr rwc"
        by (cases "with_context rt (result_tool r) d") auto
      from Cons.prems(1) Some False wc obtain cd' where
        st: "store_result rt (collected_data c) (result_tool r) rwc = Inr cd'"
        by (cases "store_result rt (collected_data c) (result_tool r) rwc") auto
      define c1 where "c1 =
        \<lparr>collected_data = cd',
         sources =
           (if py_contains ''url'' (py_str rt (PDict d))
            then extract_sources (PDict d) (sources c) else sources c),
         suggestions =
           (case map_of d ''suggestion'' of
              None \<Rightarrow> suggestions c | Some v \<Rightarrow> suggestions c @ [v]),
         correction_notes =
           (case map_of d ''correction_note'' of
              None \<Rightarrow> correction_notes c
            | Some v \<Rightarrow> correction_notes c @ [v])\<rparr>"
      from Cons.prems(1) Some False wc st have rest: "collect_loop rt rs c1 = Inr c'"
        by (simp add: c1_def)
      have "sources c1 =
          fold (\<lambda>x a. if x \<in> set a then a else a @ [x]) (url_values (PDict d)) (sources c)"
      proof (cases "py_contains ''url'' (py_str rt (PDict d))")
        case True
        then show ?thesis by (simp add: c1_def extract_sources_urls(1))
      next
        case no: False
        with Cons.prems(2) Some have "url_values (PDict d) = []" by auto
        with no show ?thesis by (simp add: c1_def)
      qed
      with Cons.IH [OF rest gate] Some show ?thesis by (simp add: payload_urls_def)
    qed
  qed
qed

lemma payloads_of_filter: "payloads_of t (filter success rs) = payloads_of t rs"
  by (simp add: payloads_of_def conj_commute)

lemma verify_and_format_returned:
  assumes "verify_and_format rt er = Inr out"
  obtains c where
    "collect_loop rt (filter success (results er))
       \<lparr>collected_data = [], sources = [], suggestions = [], correction_notes = []\<rparr> = Inr c"
    "details out = collected_data c" "final_sources out = sources c"
  using assms by (auto simp: verify_and_format_def Let_def split: sum.splits)

section \<open>Claims about the verifier\<close>

text \<open>
  C7, as amended. Whenever the aggregation returns, the entry of a tool in the by-tool map
  is: nothing when no successful outcome of the tool carries a payload; the single tagged
  payload when there is one; the list of the tagged payloads, in the order of the outcomes,
  when there are two or more (two outcomes give a list of two, the first occurrence first,
  nothing overwritten). A tagged payload carries the context label computed from it under
  the key \<open>_context\<close> when there is a label (the first entry as well as the later ones) and
  is the payload itself when there is none; every field other than \<open>_context\<close> is kept.
\<close>

theorem repeated_tool_outcomes_grouped:
  assumes "verify_and_format rt er = Inr out"
  shows "map_of (details out) t = grouped rt t (payloads_of t (results er)) \<and>
     (\<forall>d1. payloads_of t (results er) = [d1] \<longrightarrow>
        map_of (details out) t = Some (PDict (tagged rt t d1))) \<and>
     (\<forall>d1 d2. payloads_of t (results er) = [d1, d2] \<longrightarrow>
        map_of (details out) t = Some (PList [PDict (tagged rt t d1), PDict (tagged rt t d2)])) \<and>
     (\<forall>d \<in> set (payloads_of t (results er)).
        (\<forall>k. k \<noteq> ''_context'' \<longrightarrow> map_of (tagged rt t d) k = map_of d k) \<and>
        (\<forall>l. generate_context_label rt t d = Inr (Some l) \<longrightarrow>
           map_of (tagged rt t d) ''_context'' = Some (PStr l)) \<and>
        (generate_context_label rt t d = Inr None \<longrightarrow> tagged rt t d = d))"
proof -
  from assms obtain c where
    loop: "collect_loop rt (filter success (results er))
       \<lparr>collected_data = [], sources = [], suggestions = [], correction_notes = []\<rparr> = Inr c"
    and det: "details out = collected_data c"
    by (rule verify_and_format_returned)
  have succ: "\<forall>r \<in> set (filter success (results er)). success r" by simp
  have start: "map_of (collected_data
       \<lparr>collected_data = [], sources = [], suggestions = [], correction_notes = []\<rparr>) t =
      grouped rt t []"
    by (simp add: grouped_def)
  have none: "\<forall>d \<in> set ([] :: pydict list). with_context rt t d = Inr (tagged rt t d)" by simp
  from collect_loop_details [OF loop succ start none]
  have entry: "map_of (details out) t = grouped rt t (payloads_of t (results er))"
    and ok: "\<forall>d \<in> set (payloads_of t (results er)). with_context rt t d = Inr (tagged rt t d)"
    by (simp_all add: det payloads_of_filter)
  have one: "\<forall>d1. payloads_of t (results er) = [d1] \<longrightarrow>
        map_of (details out) t = Some (PDict (tagged rt t d1))"
    by (simp add: entry grouped_def)
  have two: "\<forall>d1 d2. payloads_of t (results er) = [d1, d2] \<longrightarrow>
        map_of (details out) t = Some (PList [PDict (tagged rt t d1), PDict (tagged rt t d2)])"
    by (simp add: entry grouped_def)
  have kept: "\<forall>d \<in> set (payloads_of t (results er)).
        (\<forall>k. k \<noteq> ''_context'' \<longrightarrow> map_of (tagged rt t d) k = map_of d k) \<and>
        (\<forall>l. generate_context_label rt t d = Inr (Some l) \<longrightarrow>
           map_of (tagged rt t d) ''_context'' = Some (PStr l)) \<and>
        (generate_context_label rt t d = Inr None \<longrightarrow> tagged rt t d = d)"
  proof
    fix d assume "d \<in> set (payloads_of t (results er))"
    with ok have w: "with_context rt t d = Inr (tagged rt t d)" by simp
    show "(\<forall>k. k \<noteq> ''_context'' \<longrightarrow> map_of (tagged rt t d) k = map_of d k) \<and>
        (\<forall>l. generate_context_label rt t d = Inr (Some l) \<longrightarrow>
           map_of (tagged rt t d) ''_context'' = Some (PStr l)) \<and>
        (generate_context_label rt t d = Inr None \<longrightarrow> tagged rt t d = d)"
      using with_context_fields [OF w] with_context_label [OF w] with_context_no_label [OF w]
      by blast
  qed
  from entry one two kept show ?thesis by blast
qed

theorem repeated_tool_outcomes_grouped_witness:
  "verify_and_format demo_rt
      (demo_result [weather_outcome ''Paris'', failed_outcome, weather_outcome ''Tokyo'']) =
     Inr \<lparr>details =
            [(''weather'', PList [
               PDict [(''success'', PBool True), (''city'', PStr ''Paris''),
                      (''temperature'', PStr ''20C''),
                      (''_context'', PStr ''Weather for Paris'')],
               PDict [(''success'', PBool True), (''city'', PStr ''Tokyo''),
                      (''temperature'', PStr ''20C''),
                      (''_context'', PStr ''Weather for Tokyo'')]])],
          final_sources = [], verified = False\<rparr> \<and>
   grouped demo_rt ''weather''
     (payloads_of ''weather''
        (results (demo_result [weather_outcome ''Paris'', failed_outcome, weather_outcome ''Tokyo''])))
     = Some (PList [
               PDict [(''success'', PBool True), (''city'', PStr ''Paris''),
                      (''temperature'', PStr ''20C''),
                      (''_context'', PStr ''Weather for Paris'')],
               PDict [(''success'', PBool True), (''city'', PStr ''Tokyo''),
                      (''temperature'', PStr ''20C''),
                      (''_context'', PStr ''Weather for Tokyo'')]])"
proof -
  let ?er = "demo_result [weather_outcome ''Paris'', failed_outcome, weather_outcome ''Tokyo'']"
  let ?out = "\<lparr>details =
            [(''weather'', PList [
               PDict [(''success'', PBool True), (''city'', PStr ''Paris''),
                      (''temperature'', PStr ''20C''),
                      (''_context'', PStr ''Weather for Paris'')],
               PDict [(''success'', PBool True), (''city'', PStr ''Tokyo''),
                      (''temperature'', PStr ''20C''),
                      (''_context'', PStr ''Weather for Tokyo'')]])],
          final_sources = [], verified = False\<rparr>"
  have ret: "verify_and_format demo_rt ?er = Inr ?out"
    by (simp add: verify_and_format_def demo_result_def weather_outcome_def failed_outcome_def
        with_context_def generate_context_label_def store_result_def dict_get_def fmt_def
        demo_rt_def Let_def)
  from repeated_tool_outcomes_grouped [OF ret, of "''weather''"]
  have "map_of (details ?out) ''weather'' =
      grouped demo_rt ''weather'' (payloads_of ''weather'' (results ?er))"
    by blast
  then have "grouped demo_rt ''weather'' (payloads_of ''weather'' (results ?er)) =
      map_of (details ?out) ''weather''" by (rule sym)
  with ret show ?thesis by simp
qed

text \<open>
  The claim as stated fails for a payload that has a field \<open>_context\<close> of its own: the
  label replaces it.
\<close>

theorem context_field_replaced_counterexample:
  "verify_and_format demo_rt (demo_result [labelled_outcome]) =
     Inr \<lparr>details =
            [(''weather'', PDict [(''city'', PStr ''Paris''),
                                  (''_context'', PStr ''Weather for Paris'')])],
          final_sources = [], verified = True\<rparr> \<and>
   data labelled_outcome = Some [(''city'', PStr ''Paris''), (''_context'', PStr ''station 7'')]"
  by (simp add: verify_and_format_def demo_result_def labelled_outcome_def
      with_context_def generate_context_label_def store_result_def dict_get_def fmt_def
      demo_rt_def Let_def)

text \<open>
  C8. Whenever the aggregation returns, and given that the text of a payload with a \<open>url\<close>
  or \<open>html_url\<close> field contains \<open>url\<close> (the keys of a dictionary appear in its \<open>str\<close>),
  the sources list is the list of the string values of the fields named \<open>url\<close> or
  \<open>html_url\<close>, scanned through nested dictionaries and lists in every successful
  outcome's payload, each kept once, at its first occurrence across the ordered outcomes.
\<close>

theorem sources_are_first_seen_urls:
  assumes "\<forall>r \<in> set (results er). \<forall>d. data r = Some d \<longrightarrow> url_values (PDict d) \<noteq> [] \<longrightarrow>
       py_contains ''url'' (py_str rt (PDict d))"
    and "verify_and_format rt er = Inr out"
  shows "final_sources out =
       first_occurrences (concat (map payload_urls (filter success (results er)))) \<and>
     distinct (final_sources out) \<and>
     set (final_sources out) = (\<Union>r \<in> set (filter success (results er)). set (payload_urls r))"
proof -
  from assms(2) obtain c where
    loop: "collect_loop rt (filter success (results er))
       \<lparr>collected_data = [], sources = [], suggestions = [], correction_notes = []\<rparr> = Inr c"
    and src: "final_sources out = sources c"
    by (rule verify_and_format_returned)
  from assms(1) have gate: "\<forall>r \<in> set (filter success (results er)). \<forall>d. data r = Some d \<longrightarrow>
      url_values (PDict d) \<noteq> [] \<longrightarrow> py_contains ''url'' (py_str rt (PDict d))"
    by auto
  from collect_loop_sources [OF loop gate]
  have "sources c = fold (\<lambda>x a. if x \<in> set a then a else a @ [x])
      (concat (map payload_urls (filter success (results er)))) []"
    by simp
  also have "\<dots> = first_occurrences ([] @ concat (map payload_urls (filter success (results er))))"
    by (rule fold_first_occurrences) simp
  finally have eq: "final_sources out =
      first_occurrences (concat (map payload_urls (filter success (results er))))"
    by (simp add: src)
  have "distinct (final_sources out)"
    unfolding eq by (rule distinct_first_occurrences)
  moreover have "set (final_sources out) =
      (\<Union>r \<in> set (filter success (results er)). set (payload_urls r))"
    unfolding eq by (simp add: set_first_occurrences)
  ultimately show ?thesis using eq by blast
qed

theorem sources_are_first_seen_urls_witness:
  "(\<forall>d. py_contains ''url'' (py_str demo_rt (PDict d))) \<and>
   (case verify_and_format demo_rt
           (demo_result [github_outcome, failed_outcome, weather_outcome ''Paris'']) of
      Inl e \<Rightarrow> False
    | Inr out \<Rightarrow>
        final_sources out =
          [''https://github.com/a/b'', ''https://github.com/c/d'', ''https://github.com/c''])"
proof -
  let ?er = "demo_result [github_outcome, failed_outcome, weather_outcome ''Paris'']"
  have gate: "\<forall>r \<in> set (results ?er). \<forall>d. data r = Some d \<longrightarrow>
      url_values (PDict d) \<noteq> [] \<longrightarrow> py_contains ''url'' (py_str demo_rt (PDict d))"
    by (simp add: demo_rt_def)
  obtain out where ret: "verify_and_format demo_rt ?er = Inr out"
    by (simp add: verify_and_format_def demo_result_def weather_outcome_def failed_outcome_def
        github_outcome_def with_context_def generate_context_label_def store_result_def
        dict_get_def fmt_def demo_rt_def Let_def)
  from sources_are_first_seen_urls [OF gate ret]
  have "final_sources out =
      first_occurrences (concat (map payload_urls (filter success (results ?er))))"
    by blast
  also have "\<dots> =
      [''https://github.com/a/b'', ''https://github.com/c/d'', ''https://github.com/c'']"
    by (simp add: demo_result_def weather_outcome_def failed_outcome_def github_outcome_def
        payload_urls_def first_occurrences_def)
  finally have "final_sources out =
      [''https://github.com/a/b'', ''https://github.com/c/d'', ''https://github.com/c'']" .
  moreover have "\<forall>d. py_contains ''url'' (py_str demo_rt (PDict d))"
    by (simp add: demo_rt_def)
  ultimately show ?thesis using ret by simp
qed

end
